theory Spec2Isabelle
  imports Main "HOL-Library.Word"
begin

section \<open>Network device handles of libosmocore (src/core/netdev.c)\<close>

text \<open>
  A shallow embedding of \<^verbatim>\<open>netdev.c\<close>, the build without libmnl. The two global lists
  of the file, the objects linked into them and the calls made to the operating system are
  the state; every function of the file is a function on that state. A call that
  dereferences a pointer to no live object, or that fails an \<^verbatim>\<open>OSMO_ASSERT\<close>,
  has no defined result: the model returns \<open>None\<close> there. Logging is not modelled.
\<close>

subsection \<open>Error numbers\<close>

text \<open>
  Modelled from the spec: the error numbers come from \<^verbatim>\<open>errno.h\<close>, which is not
  part of the file. The spec names the kinds (AlreadyActive, Fault, Access, NotFound and
  NotConnected, Unsupported); the values are those of Linux, the only platform the file
  compiles on.
\<close>

definition EACCES :: int where "EACCES = 13"
definition EFAULT :: int where "EFAULT = 14"
definition ENODEV :: int where "ENODEV = 19"
definition ENOTSUP :: int where "ENOTSUP = 95"
definition EALREADY :: int where "EALREADY = 114"

subsection \<open>The operating system\<close>

text \<open>
  The collaborators (\<^verbatim>\<open>talloc_zero\<close>, \<^verbatim>\<open>osmo_netns_open_fd\<close>,
  \<^verbatim>\<open>osmo_netns_switch_enter\<close>, \<^verbatim>\<open>osmo_netns_switch_exit\<close>,
  \<^verbatim>\<open>if_indextoname\<close>, \<^verbatim>\<open>close\<close>) live outside the file. Each call is recorded in
  a trace, newest first, and what a call answers is a parameter: any function of the calls
  made so far and of the call's arguments.
\<close>

datatype os_call =
    Talloc_zero
  | Osmo_netns_open_fd string
  | Osmo_netns_switch_enter int
  | Osmo_netns_switch_exit
  | If_indextoname "32 word"
  | Close int

record os_env =
  talloc_zero_ok :: "os_call list \<Rightarrow> bool"
  osmo_netns_open_fd :: "os_call list \<Rightarrow> string \<Rightarrow> int"
  osmo_netns_switch_enter :: "os_call list \<Rightarrow> int \<Rightarrow> int"
  osmo_netns_switch_exit :: "os_call list \<Rightarrow> int"
  if_indextoname :: "os_call list \<Rightarrow> 32 word \<Rightarrow> string option"

subsection \<open>Objects and global state\<close>

text \<open>
  \<^verbatim>\<open>struct netdev_netns_ctx\<close>; the list linkage is the position in the global list.
  \<^verbatim>\<open>unsigned int\<close> is 32 bits wide and wraps.
\<close>

record netdev_netns_ctx =
  refcount :: "32 word"
  ctx_netns_name :: string
  netns_fd :: int

text \<open>
  \<^verbatim>\<open>struct osmo_netdev\<close>. Pointers are addresses, \<open>None\<close> is \<^verbatim>\<open>NULL\<close>; the
  callbacks and the private data are opaque addresses.
\<close>

record osmo_netdev =
  netns_ctx :: "nat option"
  name :: "string option"
  ifindex :: "32 word"
  dev_name :: "string option"
  netns_name :: "string option"
  priv_data :: "nat option"
  registered :: bool
  ifupdown_ind_cb :: "nat option"
  dev_name_chg_cb :: "nat option"
  mtu_chg_cb :: "nat option"
  if_up :: bool
  if_up_known :: bool
  if_mtu :: "32 word"
  if_mtu_known :: bool

text \<open>
  The two global lists hold the live objects with their addresses, in list order: an
  object is linked into its list when it is allocated and unlinked when it is freed.
  \<open>next_addr\<close> is the address the allocator hands out next; addresses are not reused.
  (A pointer to a freed context can only be left in an unregistered handle, where the
  file never reads it: \<^verbatim>\<open>osmo_netdev_register\<close> overwrites it first.)
\<close>

record world =
  g_netdev_netns_ctx_list :: "(nat \<times> netdev_netns_ctx) list"
  g_netdev_list :: "(nat \<times> osmo_netdev) list"
  next_addr :: nat
  os_trace :: "os_call list"

definition world0 :: world where
  "world0 = \<lparr>g_netdev_netns_ctx_list = [], g_netdev_list = [], next_addr = 1, os_trace = []\<rparr>"

definition obj_at :: "nat \<Rightarrow> (nat \<times> 'a) list \<Rightarrow> 'a option" where
  "obj_at p xs = map_of xs p"

definition obj_upd :: "nat \<Rightarrow> 'a \<Rightarrow> (nat \<times> 'a) list \<Rightarrow> (nat \<times> 'a) list" where
  "obj_upd p v xs = map (\<lambda>(a, c). if a = p then (a, v) else (a, c)) xs"

definition llist_add_tail :: "nat \<times> 'a \<Rightarrow> (nat \<times> 'a) list \<Rightarrow> (nat \<times> 'a) list" where
  "llist_add_tail e xs = xs @ [e]"

definition llist_del :: "nat \<Rightarrow> (nat \<times> 'a) list \<Rightarrow> (nat \<times> 'a) list" where
  "llist_del p xs = filter (\<lambda>(a, c). a \<noteq> p) xs"

definition os_log :: "os_call \<Rightarrow> world \<Rightarrow> world" where
  "os_log c w = w\<lparr>os_trace := c # os_trace w\<rparr>"

definition set_ctx :: "nat \<Rightarrow> netdev_netns_ctx \<Rightarrow> world \<Rightarrow> world" where
  "set_ctx p c w = w\<lparr>g_netdev_netns_ctx_list := obj_upd p c (g_netdev_netns_ctx_list w)\<rparr>"

definition set_netdev :: "nat \<Rightarrow> osmo_netdev \<Rightarrow> world \<Rightarrow> world" where
  "set_netdev h nd w = w\<lparr>g_netdev_list := obj_upd h nd (g_netdev_list w)\<rparr>"

text \<open>
  Modelled from the spec: \<^verbatim>\<open>osmo_talloc_replace_string\<close> is defined in another file.
  It replaces the string a field points to by a copy of the new one; \<^verbatim>\<open>NULL\<close> stays
  \<^verbatim>\<open>NULL\<close> and the empty string stays an empty string ("empty string denotes the
  default/caller namespace, distinct from unset"). String duplication is taken to succeed.
\<close>

definition osmo_talloc_replace_string :: "string option \<Rightarrow> string option" where
  "osmo_talloc_replace_string newstr = newstr"

subsection \<open>The pool of namespace contexts\<close>

definition netdev_netns_ctx_alloc :: "os_env \<Rightarrow> string \<Rightarrow> world \<Rightarrow> nat option \<times> world" where
  "netdev_netns_ctx_alloc os nsname w =
    (let w1 = os_log Talloc_zero w in
     if \<not> talloc_zero_ok os (os_trace w) then (None, w1)
     else
       let p = next_addr w1;
           c = \<lparr>refcount = 0, ctx_netns_name = nsname, netns_fd = - 1\<rparr>
       in (Some p, w1\<lparr>g_netdev_netns_ctx_list :=
                         llist_add_tail (p, c) (g_netdev_netns_ctx_list w1),
                      next_addr := Suc p\<rparr>))"

definition netdev_netns_ctx_free :: "nat option \<Rightarrow> world \<Rightarrow> world option" where
  "netdev_netns_ctx_free pp w =
    (case pp of
       None \<Rightarrow> Some w
     | Some p \<Rightarrow>
        (case obj_at p (g_netdev_netns_ctx_list w) of
           None \<Rightarrow> None
         | Some c \<Rightarrow>
            let w1 = w\<lparr>g_netdev_netns_ctx_list := llist_del p (g_netdev_netns_ctx_list w)\<rparr>
            in Some (if netns_fd c \<noteq> - 1 then os_log (Close (netns_fd c)) w1 else w1)))"

text \<open>
  The first block of \<^verbatim>\<open>netdev_netns_ctx_init\<close>: open the namespace and switch to it.
  \<open>Some rc\<close> is an early \<^verbatim>\<open>return rc\<close>.
\<close>

definition netdev_netns_ctx_init_enter ::
  "os_env \<Rightarrow> nat \<Rightarrow> netdev_netns_ctx \<Rightarrow> world \<Rightarrow> int option \<times> world" where
  "netdev_netns_ctx_init_enter os p c w =
    (if ctx_netns_name c \<noteq> [] then
       let fd = osmo_netns_open_fd os (os_trace w) (ctx_netns_name c);
           w1 = set_ctx p (c\<lparr>netns_fd := fd\<rparr>) (os_log (Osmo_netns_open_fd (ctx_netns_name c)) w)
       in if fd < 0 then (Some fd, w1)
          else
            let rc = osmo_netns_switch_enter os (os_trace w1) fd;
                w2 = os_log (Osmo_netns_switch_enter fd) w1
            in if rc < 0 then (Some rc, w2) else (None, w2)
     else (None, w))"

definition netdev_netns_ctx_init :: "os_env \<Rightarrow> nat \<Rightarrow> world \<Rightarrow> (int \<times> world) option" where
  "netdev_netns_ctx_init os p w =
    (case obj_at p (g_netdev_netns_ctx_list w) of
       None \<Rightarrow> None
     | Some c \<Rightarrow>
        (case netdev_netns_ctx_init_enter os p c w of
           (Some rc, w1) \<Rightarrow> Some (rc, w1)
         | (None, w1) \<Rightarrow>
            if ctx_netns_name c \<noteq> [] then
              let rc2 = osmo_netns_switch_exit os (os_trace w1);
                  w2 = os_log Osmo_netns_switch_exit w1
              in if rc2 < 0 then Some (rc2, w2) else Some (0, w2)
            else Some (0, w1)))"

fun netdev_netns_ctx_find_by_netns_name ::
  "string \<Rightarrow> (nat \<times> netdev_netns_ctx) list \<Rightarrow> nat option" where
  "netdev_netns_ctx_find_by_netns_name nsname [] = None"
| "netdev_netns_ctx_find_by_netns_name nsname ((p, c) # xs) =
     (if ctx_netns_name c \<noteq> nsname then netdev_netns_ctx_find_by_netns_name nsname xs
      else Some p)"

text \<open>The last two lines of \<^verbatim>\<open>netdev_netns_ctx_get\<close>: \<^verbatim>\<open>refcount++\<close> and return.\<close>

definition netdev_netns_ctx_ref :: "nat \<Rightarrow> world \<Rightarrow> (nat option \<times> world) option" where
  "netdev_netns_ctx_ref p w =
    (case obj_at p (g_netdev_netns_ctx_list w) of
       None \<Rightarrow> None
     | Some c \<Rightarrow> Some (Some p, set_ctx p (c\<lparr>refcount := refcount c + 1\<rparr>) w))"

definition netdev_netns_ctx_get ::
  "os_env \<Rightarrow> string \<Rightarrow> world \<Rightarrow> (nat option \<times> world) option" where
  "netdev_netns_ctx_get os nsname w =
    (case netdev_netns_ctx_find_by_netns_name nsname (g_netdev_netns_ctx_list w) of
       Some p \<Rightarrow> netdev_netns_ctx_ref p w
     | None \<Rightarrow>
        (case netdev_netns_ctx_alloc os nsname w of
           (None, w1) \<Rightarrow> Some (None, w1)
         | (Some p, w1) \<Rightarrow>
            (case netdev_netns_ctx_init os p w1 of
               None \<Rightarrow> None
             | Some (rc, w2) \<Rightarrow>
                if rc < 0 then
                  (case netdev_netns_ctx_free (Some p) w2 of
                     None \<Rightarrow> None
                   | Some w3 \<Rightarrow> Some (None, w3))
                else netdev_netns_ctx_ref p w2)))"

definition netdev_netns_ctx_put :: "nat option \<Rightarrow> world \<Rightarrow> world option" where
  "netdev_netns_ctx_put pp w =
    (case pp of
       None \<Rightarrow> None
     | Some p \<Rightarrow>
        (case obj_at p (g_netdev_netns_ctx_list w) of
           None \<Rightarrow> None
         | Some c \<Rightarrow>
            let c' = c\<lparr>refcount := refcount c - 1\<rparr>;
                w1 = set_ctx p c' w
            in if refcount c' = 0 then netdev_netns_ctx_free (Some p) w1 else Some w1))"

subsection \<open>The scoped namespace switch\<close>

text \<open>
  The macros \<^verbatim>\<open>NETDEV_NETNS_ENTER\<close> and \<^verbatim>\<open>NETDEV_NETNS_EXIT\<close>. A result
  \<open>Some rc\<close> is the macro's \<^verbatim>\<open>return\<close> out of the enclosing function, \<open>None\<close>
  falls through to the next statement.
\<close>

definition NETDEV_NETNS_ENTER ::
  "os_env \<Rightarrow> osmo_netdev \<Rightarrow> world \<Rightarrow> (int option \<times> world) option" where
  "NETDEV_NETNS_ENTER os nd w =
    (case netns_name nd of
       None \<Rightarrow> Some (None, w)
     | Some s \<Rightarrow>
        (case netns_ctx nd of
           None \<Rightarrow> None
         | Some p \<Rightarrow>
            (case obj_at p (g_netdev_netns_ctx_list w) of
               None \<Rightarrow> None
             | Some c \<Rightarrow>
                let rc2 = osmo_netns_switch_enter os (os_trace w) (netns_fd c);
                    w1 = os_log (Osmo_netns_switch_enter (netns_fd c)) w
                in if rc2 < 0 then Some (Some (- EACCES), w1) else Some (None, w1))))"

definition NETDEV_NETNS_EXIT :: "os_env \<Rightarrow> osmo_netdev \<Rightarrow> world \<Rightarrow> int option \<times> world" where
  "NETDEV_NETNS_EXIT os nd w =
    (case netns_name nd of
       None \<Rightarrow> (None, w)
     | Some s \<Rightarrow>
        let rc2 = osmo_netns_switch_exit os (os_trace w);
            w1 = os_log Osmo_netns_switch_exit w
        in if rc2 < 0 then (Some rc2, w1) else (None, w1))"

subsection \<open>The handle: allocation, registration, configuration\<close>

definition osmo_netdev_alloc :: "os_env \<Rightarrow> string option \<Rightarrow> world \<Rightarrow> nat option \<times> world" where
  "osmo_netdev_alloc os nm w =
    (let w1 = os_log Talloc_zero w in
     if \<not> talloc_zero_ok os (os_trace w) then (None, w1)
     else
       let h = next_addr w1;
           nd = \<lparr>netns_ctx = None, name = nm, ifindex = 0, dev_name = None,
                 netns_name = None, priv_data = None, registered = False,
                 ifupdown_ind_cb = None, dev_name_chg_cb = None, mtu_chg_cb = None,
                 if_up = False, if_up_known = False, if_mtu = 0, if_mtu_known = False\<rparr>
       in (Some h, w1\<lparr>g_netdev_list := llist_add_tail (h, nd) (g_netdev_list w1),
                      next_addr := Suc h\<rparr>))"

definition osmo_netdev_is_registered :: "nat \<Rightarrow> world \<Rightarrow> bool option" where
  "osmo_netdev_is_registered h w = map_option registered (obj_at h (g_netdev_list w))"

definition osmo_netdev_unregister :: "nat \<Rightarrow> world \<Rightarrow> (int \<times> world) option" where
  "osmo_netdev_unregister h w =
    (case obj_at h (g_netdev_list w) of
       None \<Rightarrow> None
     | Some nd \<Rightarrow>
        if \<not> registered nd then Some (- EALREADY, w)
        else
          let nd1 = nd\<lparr>if_up_known := False, if_mtu_known := False\<rparr>;
              w1 = set_netdev h nd1 w
          in (case netdev_netns_ctx_put (netns_ctx nd1) w1 of
                None \<Rightarrow> None
              | Some w2 \<Rightarrow> Some (0, set_netdev h (nd1\<lparr>registered := False\<rparr>) w2)))"

definition osmo_netdev_free :: "nat option \<Rightarrow> world \<Rightarrow> world option" where
  "osmo_netdev_free hp w =
    (case hp of
       None \<Rightarrow> Some w
     | Some h \<Rightarrow>
        (case osmo_netdev_is_registered h w of
           None \<Rightarrow> None
         | Some r \<Rightarrow>
            (case (if r then map_option snd (osmo_netdev_unregister h w) else Some w) of
               None \<Rightarrow> None
             | Some w1 \<Rightarrow> Some (w1\<lparr>g_netdev_list := llist_del h (g_netdev_list w1)\<rparr>))))"

text \<open>
  \<^verbatim>\<open>osmo_netdev_register\<close> after the namespace has been entered: the name lookup, and
  either the success path or the path through the label \<^verbatim>\<open>err_put_exit\<close>.
\<close>

definition osmo_netdev_register_entered ::
  "os_env \<Rightarrow> nat \<Rightarrow> osmo_netdev \<Rightarrow> world \<Rightarrow> (int \<times> world) option" where
  "osmo_netdev_register_entered os h nd w =
    (let r = if_indextoname os (os_trace w) (ifindex nd);
         w1 = os_log (If_indextoname (ifindex nd)) w
     in case r of
          None \<Rightarrow>
           (case NETDEV_NETNS_EXIT os nd w1 of
              (Some rc2, w2) \<Rightarrow> Some (rc2, w2)
            | (None, w2) \<Rightarrow>
               (case netdev_netns_ctx_put (netns_ctx nd) w2 of
                  None \<Rightarrow> None
                | Some w3 \<Rightarrow> Some (- ENODEV, w3)))
        | Some ifnamebuf \<Rightarrow>
           let nd1 = nd\<lparr>dev_name := osmo_talloc_replace_string (Some ifnamebuf)\<rparr>;
               w2 = set_netdev h nd1 w1
           in (case NETDEV_NETNS_EXIT os nd1 w2 of
                 (Some rc2, w3) \<Rightarrow> Some (rc2, w3)
               | (None, w3) \<Rightarrow> Some (0, set_netdev h (nd1\<lparr>registered := True\<rparr>) w3)))"

definition osmo_netdev_register :: "os_env \<Rightarrow> nat \<Rightarrow> world \<Rightarrow> (int \<times> world) option" where
  "osmo_netdev_register os h w =
    (case obj_at h (g_netdev_list w) of
       None \<Rightarrow> None
     | Some nd \<Rightarrow>
        if registered nd then Some (- EALREADY, w)
        else
          (case netdev_netns_ctx_get os (case netns_name nd of None \<Rightarrow> [] | Some s \<Rightarrow> s) w of
             None \<Rightarrow> None
           | Some (pp, w1) \<Rightarrow>
              let nd1 = nd\<lparr>netns_ctx := pp\<rparr>;
                  w2 = set_netdev h nd1 w1
              in if pp = None then Some (- EFAULT, w2)
                 else
                   (case NETDEV_NETNS_ENTER os nd1 w2 of
                      None \<Rightarrow> None
                    | Some (Some rc, w3) \<Rightarrow> Some (rc, w3)
                    | Some (None, w3) \<Rightarrow> osmo_netdev_register_entered os h nd1 w3)))"

definition osmo_netdev_set_ifindex :: "nat \<Rightarrow> 32 word \<Rightarrow> world \<Rightarrow> (int \<times> world) option" where
  "osmo_netdev_set_ifindex h idx w =
    (case obj_at h (g_netdev_list w) of
       None \<Rightarrow> None
     | Some nd \<Rightarrow>
        if registered nd then Some (- EALREADY, w)
        else Some (0, set_netdev h (nd\<lparr>ifindex := idx\<rparr>) w))"

definition osmo_netdev_set_netns_name ::
  "nat \<Rightarrow> string option \<Rightarrow> world \<Rightarrow> (int \<times> world) option" where
  "osmo_netdev_set_netns_name h nsname w =
    (case obj_at h (g_netdev_list w) of
       None \<Rightarrow> None
     | Some nd \<Rightarrow>
        if registered nd then Some (- EALREADY, w)
        else Some (0, set_netdev h (nd\<lparr>netns_name := osmo_talloc_replace_string nsname\<rparr>) w))"

definition osmo_netdev_set_priv_data :: "nat \<Rightarrow> nat option \<Rightarrow> world \<Rightarrow> world option" where
  "osmo_netdev_set_priv_data h pd w =
    (case obj_at h (g_netdev_list w) of
       None \<Rightarrow> None
     | Some nd \<Rightarrow> Some (set_netdev h (nd\<lparr>priv_data := pd\<rparr>) w))"

definition osmo_netdev_set_ifupdown_ind_cb :: "nat \<Rightarrow> nat option \<Rightarrow> world \<Rightarrow> world option" where
  "osmo_netdev_set_ifupdown_ind_cb h cb w =
    (case obj_at h (g_netdev_list w) of
       None \<Rightarrow> None
     | Some nd \<Rightarrow> Some (set_netdev h (nd\<lparr>ifupdown_ind_cb := cb\<rparr>) w))"

definition osmo_netdev_set_dev_name_chg_cb :: "nat \<Rightarrow> nat option \<Rightarrow> world \<Rightarrow> world option" where
  "osmo_netdev_set_dev_name_chg_cb h cb w =
    (case obj_at h (g_netdev_list w) of
       None \<Rightarrow> None
     | Some nd \<Rightarrow> Some (set_netdev h (nd\<lparr>dev_name_chg_cb := cb\<rparr>) w))"

definition osmo_netdev_set_mtu_chg_cb :: "nat \<Rightarrow> nat option \<Rightarrow> world \<Rightarrow> world option" where
  "osmo_netdev_set_mtu_chg_cb h cb w =
    (case obj_at h (g_netdev_list w) of
       None \<Rightarrow> None
     | Some nd \<Rightarrow> Some (set_netdev h (nd\<lparr>mtu_chg_cb := cb\<rparr>) w))"

subsection \<open>The interface operations\<close>

type_synonym osmo_sockaddr = "8 word list"

definition osmo_netdev_ifupdown ::
  "os_env \<Rightarrow> nat \<Rightarrow> bool \<Rightarrow> world \<Rightarrow> (int \<times> world) option" where
  "osmo_netdev_ifupdown os h ifupdown w =
    (case obj_at h (g_netdev_list w) of
       None \<Rightarrow> None
     | Some nd \<Rightarrow>
        if \<not> registered nd then Some (- ENODEV, w)
        else
          (case NETDEV_NETNS_ENTER os nd w of
             None \<Rightarrow> None
           | Some (Some rc, w1) \<Rightarrow> Some (rc, w1)
           | Some (None, w1) \<Rightarrow>
              (case NETDEV_NETNS_EXIT os nd w1 of
                 (Some rc2, w2) \<Rightarrow> Some (rc2, w2)
               | (None, w2) \<Rightarrow> Some (- ENOTSUP, w2))))"

definition osmo_netdev_add_addr ::
  "os_env \<Rightarrow> nat \<Rightarrow> osmo_sockaddr \<Rightarrow> 8 word \<Rightarrow> world \<Rightarrow> (int \<times> world) option" where
  "osmo_netdev_add_addr os h addr prefixlen w =
    (case obj_at h (g_netdev_list w) of
       None \<Rightarrow> None
     | Some nd \<Rightarrow>
        if \<not> registered nd then Some (- ENODEV, w)
        else
          (case NETDEV_NETNS_ENTER os nd w of
             None \<Rightarrow> None
           | Some (Some rc, w1) \<Rightarrow> Some (rc, w1)
           | Some (None, w1) \<Rightarrow>
              (case NETDEV_NETNS_EXIT os nd w1 of
                 (Some rc2, w2) \<Rightarrow> Some (rc2, w2)
               | (None, w2) \<Rightarrow> Some (- ENOTSUP, w2))))"

definition osmo_netdev_add_route ::
  "os_env \<Rightarrow> nat \<Rightarrow> osmo_sockaddr \<Rightarrow> 8 word \<Rightarrow> osmo_sockaddr option \<Rightarrow> world
     \<Rightarrow> (int \<times> world) option" where
  "osmo_netdev_add_route os h dst_addr dst_prefixlen gw_addr w =
    (case obj_at h (g_netdev_list w) of
       None \<Rightarrow> None
     | Some nd \<Rightarrow>
        if \<not> registered nd then Some (- ENODEV, w)
        else
          (case NETDEV_NETNS_ENTER os nd w of
             None \<Rightarrow> None
           | Some (Some rc, w1) \<Rightarrow> Some (rc, w1)
           | Some (None, w1) \<Rightarrow>
              (case NETDEV_NETNS_EXIT os nd w1 of
                 (Some rc2, w2) \<Rightarrow> Some (rc2, w2)
               | (None, w2) \<Rightarrow> Some (- ENOTSUP, w2))))"

subsection \<open>Sequences of public calls\<close>

text \<open>
  A caller's program is a list of calls of the public functions; handles are named by the
  addresses \<^verbatim>\<open>osmo_netdev_alloc\<close> returned. \<open>run\<close> performs them in order and is
  \<open>None\<close> as soon as one call has no defined result.
\<close>

datatype api_call =
    Alloc "string option"
  | Free "nat option"
  | Register nat
  | Unregister nat
  | Set_ifindex nat "32 word"
  | Set_netns_name nat "string option"
  | Set_priv_data nat "nat option"
  | Set_ifupdown_ind_cb nat "nat option"
  | Set_dev_name_chg_cb nat "nat option"
  | Set_mtu_chg_cb nat "nat option"
  | Ifupdown nat bool
  | Add_addr nat osmo_sockaddr "8 word"
  | Add_route nat osmo_sockaddr "8 word" "osmo_sockaddr option"

fun api_step :: "os_env \<Rightarrow> api_call \<Rightarrow> world \<Rightarrow> world option" where
  "api_step os (Alloc nm) w = Some (snd (osmo_netdev_alloc os nm w))"
| "api_step os (Free hp) w = osmo_netdev_free hp w"
| "api_step os (Register h) w = map_option snd (osmo_netdev_register os h w)"
| "api_step os (Unregister h) w = map_option snd (osmo_netdev_unregister h w)"
| "api_step os (Set_ifindex h idx) w = map_option snd (osmo_netdev_set_ifindex h idx w)"
| "api_step os (Set_netns_name h s) w = map_option snd (osmo_netdev_set_netns_name h s w)"
| "api_step os (Set_priv_data h pd) w = osmo_netdev_set_priv_data h pd w"
| "api_step os (Set_ifupdown_ind_cb h cb) w = osmo_netdev_set_ifupdown_ind_cb h cb w"
| "api_step os (Set_dev_name_chg_cb h cb) w = osmo_netdev_set_dev_name_chg_cb h cb w"
| "api_step os (Set_mtu_chg_cb h cb) w = osmo_netdev_set_mtu_chg_cb h cb w"
| "api_step os (Ifupdown h b) w = map_option snd (osmo_netdev_ifupdown os h b w)"
| "api_step os (Add_addr h a l) w = map_option snd (osmo_netdev_add_addr os h a l w)"
| "api_step os (Add_route h a l g) w = map_option snd (osmo_netdev_add_route os h a l g w)"

fun run :: "os_env \<Rightarrow> api_call list \<Rightarrow> world \<Rightarrow> world option" where
  "run os [] w = Some w"
| "run os (c # cs) w = (case api_step os c w of None \<Rightarrow> None | Some w' \<Rightarrow> run os cs w')"

subsection \<open>Reading the state\<close>

text \<open>The context a handle's \<^verbatim>\<open>netns_ctx\<close> pointer refers to, when it is a live one.\<close>

definition netns_ctx_of :: "nat \<Rightarrow> world \<Rightarrow> (nat \<times> netdev_netns_ctx) option" where
  "netns_ctx_of h w =
    (case obj_at h (g_netdev_list w) of
       None \<Rightarrow> None
     | Some nd \<Rightarrow>
        (case netns_ctx nd of
           None \<Rightarrow> None
         | Some p \<Rightarrow> map_option (Pair p) (obj_at p (g_netdev_netns_ctx_list w))))"


text \<open>The number of calls of \<^verbatim>\<open>osmo_netdev_register\<close> in a program.\<close>

fun is_register :: "api_call \<Rightarrow> bool" where
  "is_register (Register h) = True"
| "is_register c = False"

definition register_calls :: "api_call list \<Rightarrow> nat" where
  "register_calls cs = length (filter is_register cs)"

text \<open>
  A call that does not wrap a reference count around: a call of
  \<^verbatim>\<open>osmo_netdev_register\<close> on an unregistered handle does not find a context whose
  count is the greatest one, \<open>2 ^ 32 - 1\<close>; any other call. \<open>no_wrap\<close> says so of every
  call of a program, each in the state in which it is made.
\<close>

definition register_safe :: "nat \<Rightarrow> world \<Rightarrow> bool" where
  "register_safe h w =
    (case obj_at h (g_netdev_list w) of
       None \<Rightarrow> True
     | Some nd \<Rightarrow>
         registered nd
         \<or> (case netdev_netns_ctx_find_by_netns_name
                     (case netns_name nd of None \<Rightarrow> [] | Some s \<Rightarrow> s)
                     (g_netdev_netns_ctx_list w) of
               None \<Rightarrow> True
             | Some p \<Rightarrow>
                 (case obj_at p (g_netdev_netns_ctx_list w) of
                    None \<Rightarrow> True
                  | Some c \<Rightarrow> refcount c \<noteq> - 1)))"

fun call_safe :: "api_call \<Rightarrow> world \<Rightarrow> bool" where
  "call_safe (Register h) w = register_safe h w"
| "call_safe c w = True"

fun no_wrap :: "os_env \<Rightarrow> api_call list \<Rightarrow> world \<Rightarrow> bool" where
  "no_wrap os [] w = True"
| "no_wrap os (c # cs) w =
     (call_safe c w
      \<and> (case api_step os c w of None \<Rightarrow> True | Some w' \<Rightarrow> no_wrap os cs w'))"

text \<open>
  A call is well-formed when the handle it is given is one that
  \<^verbatim>\<open>osmo_netdev_alloc\<close> returned and that has not been freed (or \<^verbatim>\<open>NULL\<close>, for
  \<^verbatim>\<open>osmo_netdev_free\<close>).
\<close>

fun call_ok :: "api_call \<Rightarrow> world \<Rightarrow> bool" where
  "call_ok (Alloc nm) w = True"
| "call_ok (Free None) w = True"
| "call_ok (Free (Some h)) w = (obj_at h (g_netdev_list w) \<noteq> None)"
| "call_ok (Register h) w = (obj_at h (g_netdev_list w) \<noteq> None)"
| "call_ok (Unregister h) w = (obj_at h (g_netdev_list w) \<noteq> None)"
| "call_ok (Set_ifindex h idx) w = (obj_at h (g_netdev_list w) \<noteq> None)"
| "call_ok (Set_netns_name h s) w = (obj_at h (g_netdev_list w) \<noteq> None)"
| "call_ok (Set_priv_data h pd) w = (obj_at h (g_netdev_list w) \<noteq> None)"
| "call_ok (Set_ifupdown_ind_cb h cb) w = (obj_at h (g_netdev_list w) \<noteq> None)"
| "call_ok (Set_dev_name_chg_cb h cb) w = (obj_at h (g_netdev_list w) \<noteq> None)"
| "call_ok (Set_mtu_chg_cb h cb) w = (obj_at h (g_netdev_list w) \<noteq> None)"
| "call_ok (Ifupdown h b) w = (obj_at h (g_netdev_list w) \<noteq> None)"
| "call_ok (Add_addr h a l) w = (obj_at h (g_netdev_list w) \<noteq> None)"
| "call_ok (Add_route h a l g) w = (obj_at h (g_netdev_list w) \<noteq> None)"

subsection \<open>Invariants\<close>

text \<open>
  Addresses in the pool are distinct and were handed out by the allocator, so the next
  address is fresh.
\<close>

definition addrs_fresh :: "world \<Rightarrow> bool" where
  "addrs_fresh w \<longleftrightarrow>
     distinct (map fst (g_netdev_netns_ctx_list w))
     \<and> list_all (\<lambda>(p, c). p < next_addr w) (g_netdev_netns_ctx_list w)"

text \<open>
  The invariant of the pool. The contexts that exist are those in the list (a context is
  linked into it when allocated and unlinked when freed): no two of them have the same
  namespace name, and each has a reference count greater than zero.
\<close>

definition names_distinct :: "world \<Rightarrow> bool" where
  "names_distinct w \<longleftrightarrow>
     distinct (map (ctx_netns_name \<circ> snd) (g_netdev_netns_ctx_list w))"

definition counts_positive :: "world \<Rightarrow> bool" where
  "counts_positive w \<longleftrightarrow> list_all (\<lambda>(p, c). 0 < refcount c) (g_netdev_netns_ctx_list w)"

definition pool_inv :: "world \<Rightarrow> bool" where
  "pool_inv w \<longleftrightarrow> names_distinct w \<and> counts_positive w"

text \<open>
  The descriptor of every context fits its name: none (\<open>- 1\<close>) for the default namespace,
  an open one otherwise.
\<close>

definition fds_ok :: "world \<Rightarrow> bool" where
  "fds_ok w \<longleftrightarrow>
     list_all (\<lambda>(p, c). if ctx_netns_name c = [] then netns_fd c = - 1 else 0 \<le> netns_fd c)
       (g_netdev_netns_ctx_list w)"

text \<open>
  Fresh addresses, distinct names and fitting descriptors: these are preserved by every
  public call, whatever the reference counts are.
\<close>

definition names_wf :: "world \<Rightarrow> bool" where
  "names_wf w \<longleftrightarrow> addrs_fresh w \<and> names_distinct w \<and> fds_ok w"



text \<open>
  The invariant together with what its preservation needs: fresh addresses, and a bound
  \<open>n\<close> on every reference count.
\<close>

definition pool_wf :: "nat \<Rightarrow> world \<Rightarrow> bool" where
  "pool_wf n w \<longleftrightarrow>
     addrs_fresh w \<and> pool_inv w
     \<and> list_all (\<lambda>(p, c). unat (refcount c) \<le> n) (g_netdev_netns_ctx_list w)"

text \<open>The number of registered handles whose context pointer is \<open>p\<close>.\<close>

definition ctx_refs :: "nat \<Rightarrow> (nat \<times> osmo_netdev) list \<Rightarrow> nat" where
  "ctx_refs p hl = length (filter (\<lambda>(h, nd). registered nd \<and> netns_ctx nd = Some p) hl)"

text \<open>
  Handles and contexts: the context pointer of a registered handle refers to a context in
  the pool, and no context has more registered handles pointing to it than its reference
  count says.
\<close>

definition refs_ok ::
  "(nat \<times> netdev_netns_ctx) list \<Rightarrow> (nat \<times> osmo_netdev) list \<Rightarrow> bool" where
  "refs_ok xs hl \<longleftrightarrow>
     (\<forall>(h, nd) \<in> set hl. registered nd \<longrightarrow> (\<exists>p. netns_ctx nd = Some p \<and> p \<in> fst ` set xs))
     \<and> (\<forall>(p, c) \<in> set xs. ctx_refs p hl \<le> unat (refcount c))"

text \<open>The handles have distinct addresses handed out by the allocator, and \<open>refs_ok\<close> holds.\<close>

definition handles_inv :: "world \<Rightarrow> bool" where
  "handles_inv w \<longleftrightarrow>
     distinct (map fst (g_netdev_list w))
     \<and> (\<forall>(h, nd) \<in> set (g_netdev_list w). h < next_addr w)
     \<and> refs_ok (g_netdev_netns_ctx_list w) (g_netdev_list w)"

definition world_inv :: "nat \<Rightarrow> world \<Rightarrow> bool" where
  "world_inv n w \<longleftrightarrow> pool_wf n w \<and> handles_inv w"

subsection \<open>Concrete operating systems, programs and states\<close>

text \<open>
  An operating system on which everything works: allocation succeeds, every namespace
  opens as descriptor 3, switching to a valid descriptor and back succeeds, and interface
  1 is \<^verbatim>\<open>lo\<close>, the only interface.
\<close>

definition os_ok :: os_env where
  "os_ok = \<lparr>talloc_zero_ok = (\<lambda>tr. True),
            osmo_netns_open_fd = (\<lambda>tr s. 3),
            osmo_netns_switch_enter = (\<lambda>tr fd. if fd < 0 then - 1 else 0),
            osmo_netns_switch_exit = (\<lambda>tr. 0),
            if_indextoname = (\<lambda>tr idx. if idx = 1 then Some ''lo'' else None)\<rparr>"


text \<open>
  An operating system on which entering a namespace works once (while the context is
  prepared) and fails from then on.
\<close>

fun is_switch_enter :: "os_call \<Rightarrow> bool" where
  "is_switch_enter (Osmo_netns_switch_enter fd) = True"
| "is_switch_enter c = False"

definition os_enter_once :: os_env where
  "os_enter_once = os_ok\<lparr>osmo_netns_switch_enter :=
      (\<lambda>tr fd. if fd < 0 \<or> list_ex is_switch_enter tr then - 1 else 0)\<rparr>"

text \<open>The state a program ends in, for programs that are known to run.\<close>

definition world_or :: "world option \<Rightarrow> world" where
  "world_or r = (case r of None \<Rightarrow> world0 | Some w \<Rightarrow> w)"

text \<open>One handle (address 1), configured for interface 1 in namespace \<^verbatim>\<open>blue\<close>.\<close>

definition w_blue_unreg :: world where
  "w_blue_unreg =
     world_or (run os_ok [Alloc (Some ''tun''), Set_netns_name 1 (Some ''blue''),
                          Set_ifindex 1 1] world0)"

text \<open>
  A program that configures and registers that handle, and the state after the
  registration; the context has address 2.
\<close>

definition blue_prog :: "api_call list" where
  "blue_prog = [Alloc (Some ''tun''), Set_netns_name 1 (Some ''blue''), Set_ifindex 1 1,
                Register 1]"

definition w_blue_reg :: world where
  "w_blue_reg = world_or (run os_ok [Register 1] w_blue_unreg)"


text \<open>
  One handle (address 1), configured for interface 1 and with the empty string as its
  namespace name, as \<^verbatim>\<open>osmo_netdev_set_netns_name(netdev, "")\<close> leaves it.
\<close>

definition w_empty_unreg :: world where
  "w_empty_unreg =
     world_or (run os_ok [Alloc (Some ''tun''), Set_netns_name 1 (Some ''''),
                          Set_ifindex 1 1] world0)"

text \<open>
  A program that registers \<open>n + 1\<close> handles, all for interface 1 in namespace
  \<^verbatim>\<open>blue\<close>, and the state after it under \<open>os_ok\<close>: the first handle has address 1,
  the context address 2, the further handles the addresses from 3 on; every registration
  succeeds and holds one reference to the context.
\<close>

primrec many_prog :: "nat \<Rightarrow> api_call list" where
  "many_prog 0 = blue_prog"
| "many_prog (Suc n) =
     many_prog n @ [Alloc (Some ''tun''), Set_netns_name (n + 3) (Some ''blue''),
                    Set_ifindex (n + 3) 1, Register (n + 3)]"

definition nd_blue_reg :: osmo_netdev where
  "nd_blue_reg =
     \<lparr>netns_ctx = Some 2, name = Some ''tun'', ifindex = 1, dev_name = Some ''lo'',
      netns_name = Some ''blue'', priv_data = None, registered = True,
      ifupdown_ind_cb = None, dev_name_chg_cb = None, mtu_chg_cb = None,
      if_up = False, if_up_known = False, if_mtu = 0, if_mtu_known = False\<rparr>"

definition w_many :: "nat \<Rightarrow> world" where
  "w_many n =
    \<lparr>g_netdev_netns_ctx_list =
       [(2, \<lparr>refcount = of_nat (Suc n), ctx_netns_name = ''blue'', netns_fd = 3\<rparr>)],
     g_netdev_list = (1, nd_blue_reg) # map (\<lambda>i. (i + 3, nd_blue_reg)) [0..<n],
     next_addr = n + 3,
     os_trace =
       concat (replicate n [Osmo_netns_switch_exit, If_indextoname 1,
                            Osmo_netns_switch_enter 3, Talloc_zero])
       @ [Osmo_netns_switch_exit, If_indextoname 1, Osmo_netns_switch_enter 3,
          Osmo_netns_switch_exit, Osmo_netns_switch_enter 3,
          Osmo_netns_open_fd ''blue'', Talloc_zero, Talloc_zero]\<rparr>"











section \<open>Properties\<close>

subsection \<open>Objects in the lists\<close>

lemma obj_at_obj_upd_same: "obj_at p xs = Some c \<Longrightarrow> obj_at p (obj_upd p v xs) = Some v"
  by (induction xs) (auto simp: obj_at_def obj_upd_def split: if_splits)


lemma obj_upd_obj_upd: "obj_upd p v (obj_upd p u xs) = obj_upd p v xs"
  by (induction xs) (auto simp: obj_upd_def)

lemma is_registered_iff:
  "osmo_netdev_is_registered h w = Some b \<longleftrightarrow>
     (\<exists>nd. obj_at h (g_netdev_list w) = Some nd \<and> registered nd = b)"
  by (auto simp: osmo_netdev_is_registered_def)

subsection \<open>Calls in the wrong state\<close>

text \<open>
  C7. On an unregistered handle, bringing the interface up or down, adding an address and
  adding a route each return \<open>- ENODEV\<close> (the spec's NotConnected) and leave the whole
  state as it was: the trace of operating-system calls is part of the state, so no
  namespace switch is entered or left, and the handle is unchanged.
\<close>

theorem unregistered_ops_not_connected:
  assumes "osmo_netdev_is_registered h w = Some False"
  shows "osmo_netdev_ifupdown os h ifupdown w = Some (- ENODEV, w)
       \<and> osmo_netdev_add_addr os h addr prefixlen w = Some (- ENODEV, w)
       \<and> osmo_netdev_add_route os h dst_addr dst_prefixlen gw_addr w = Some (- ENODEV, w)"
  using assms
  by (auto simp: is_registered_iff osmo_netdev_ifupdown_def osmo_netdev_add_addr_def
      osmo_netdev_add_route_def)

theorem unregistered_ops_not_connected_witness:
  "osmo_netdev_is_registered 1 w_blue_unreg = Some False
   \<and> osmo_netdev_ifupdown os_ok 1 True w_blue_unreg = Some (- ENODEV, w_blue_unreg)
   \<and> osmo_netdev_add_addr os_ok 1 [10, 0, 0, 1] 24 w_blue_unreg = Some (- ENODEV, w_blue_unreg)
   \<and> osmo_netdev_add_route os_ok 1 [10, 0, 0, 0] 8 None w_blue_unreg
       = Some (- ENODEV, w_blue_unreg)"
proof -
  have h: "osmo_netdev_is_registered 1 w_blue_unreg = Some False"
    by code_simp
  show ?thesis
    using h unregistered_ops_not_connected
      [OF h, of os_ok True "[10, 0, 0, 1]" 24 "[10, 0, 0, 0]" 8 None]
    by simp
qed

text \<open>
  C8. On a registered handle, setting the interface index, setting the namespace name and
  registering again each return \<open>- EALREADY\<close> (AlreadyActive) and leave the whole state,
  so every field of the handle, as it was.
\<close>

theorem registered_configure_already_active:
  assumes "osmo_netdev_is_registered h w = Some True"
  shows "osmo_netdev_set_ifindex h idx w = Some (- EALREADY, w)
       \<and> osmo_netdev_set_netns_name h nsname w = Some (- EALREADY, w)
       \<and> osmo_netdev_register os h w = Some (- EALREADY, w)"
  using assms
  by (auto simp: is_registered_iff osmo_netdev_set_ifindex_def osmo_netdev_set_netns_name_def
      osmo_netdev_register_def)

theorem registered_configure_already_active_witness:
  "osmo_netdev_is_registered 1 w_blue_reg = Some True
   \<and> osmo_netdev_set_ifindex 1 7 w_blue_reg = Some (- EALREADY, w_blue_reg)
   \<and> osmo_netdev_set_netns_name 1 (Some ''red'') w_blue_reg = Some (- EALREADY, w_blue_reg)
   \<and> osmo_netdev_register os_ok 1 w_blue_reg = Some (- EALREADY, w_blue_reg)"
proof -
  have h: "osmo_netdev_is_registered 1 w_blue_reg = Some True"
    by code_simp
  show ?thesis
    using h registered_configure_already_active [OF h, of 7 "Some ''red''" os_ok]
    by simp
qed

text \<open>
  C9. On an unregistered handle \<^verbatim>\<open>osmo_netdev_unregister\<close> returns \<open>- EALREADY\<close> and
  leaves the whole state as it was: no reference count is decremented and no context is
  destroyed.
\<close>

theorem unregister_unregistered_already_active:
  assumes "osmo_netdev_is_registered h w = Some False"
  shows "osmo_netdev_unregister h w = Some (- EALREADY, w)"
  using assms
  by (auto simp: is_registered_iff osmo_netdev_unregister_def)

theorem unregister_unregistered_already_active_witness:
  "osmo_netdev_is_registered 1 w_blue_unreg = Some False
   \<and> osmo_netdev_unregister 1 w_blue_unreg = Some (- EALREADY, w_blue_unreg)"
proof -
  have h: "osmo_netdev_is_registered 1 w_blue_unreg = Some False"
    by code_simp
  show ?thesis
    using h unregister_unregistered_already_active [OF h]
    by simp
qed

subsection \<open>Unregistering and freeing a registered handle\<close>


lemma llist_del_obj_upd_same: "llist_del p (obj_upd p v xs) = llist_del p xs"
  by (induction xs) (auto simp: llist_del_def obj_upd_def)

lemma netns_ctx_of_iff:
  "netns_ctx_of h w = Some (p, c) \<longleftrightarrow>
    (\<exists>nd. obj_at h (g_netdev_list w) = Some nd \<and> netns_ctx nd = Some p
        \<and> obj_at p (g_netdev_netns_ctx_list w) = Some c)"
  by (auto simp: netns_ctx_of_def split: option.splits)

lemma netdev_netns_ctx_put_live:
  assumes "obj_at p (g_netdev_netns_ctx_list w) = Some c"
  shows "netdev_netns_ctx_put (Some p) w =
     Some (if refcount c = 1
           then (if netns_fd c \<noteq> - 1 then os_log (Close (netns_fd c)) else id)
                  (w\<lparr>g_netdev_netns_ctx_list := llist_del p (g_netdev_netns_ctx_list w)\<rparr>)
           else set_ctx p (c\<lparr>refcount := refcount c - 1\<rparr>) w)"
  using assms
  by (auto simp: netdev_netns_ctx_put_def netdev_netns_ctx_free_def set_ctx_def Let_def
      obj_at_obj_upd_same llist_del_obj_upd_same)





subsection \<open>The interface operations on a registered handle\<close>




subsection \<open>Failures inside \<^verbatim>\<open>osmo_netdev_register\<close>\<close>

text \<open>
  C1 at a failing input. The handle is unregistered and configured for namespace
  \<^verbatim>\<open>blue\<close>; the pool is empty. The operating system lets the context be prepared and
  then refuses to enter the namespace. \<^verbatim>\<open>NETDEV_NETNS_ENTER\<close> returns \<open>- EACCES\<close> out of
  \<^verbatim>\<open>osmo_netdev_register\<close> before the label \<^verbatim>\<open>err_put_exit\<close> is reached: the handle
  stays unregistered, but the context acquired for it stays in the pool with reference
  count 1, and the handle's context pointer has been overwritten.
\<close>

theorem register_enter_failure_keeps_reference:
  "osmo_netdev_is_registered 1 w_blue_unreg = Some False
   \<and> g_netdev_netns_ctx_list w_blue_unreg = []
   \<and> map_option fst (osmo_netdev_register os_enter_once 1 w_blue_unreg) = Some (- EACCES)
   \<and> map_option (g_netdev_netns_ctx_list \<circ> snd) (osmo_netdev_register os_enter_once 1 w_blue_unreg)
       = Some [(2, \<lparr>refcount = 1, ctx_netns_name = ''blue'', netns_fd = 3\<rparr>)]
   \<and> map_option (osmo_netdev_is_registered 1 \<circ> snd)
         (osmo_netdev_register os_enter_once 1 w_blue_unreg) = Some (Some False)
   \<and> map_option (netns_ctx_of 1 \<circ> snd) (osmo_netdev_register os_enter_once 1 w_blue_unreg)
       = Some (Some (2, \<lparr>refcount = 1, ctx_netns_name = ''blue'', netns_fd = 3\<rparr>))"
  by code_simp

subsection \<open>The guard and the default namespace\<close>

text \<open>
  For a handle whose namespace name is unset (\<^verbatim>\<open>NULL\<close>) both macros do nothing: no
  call is made, nothing is returned from the enclosing function, the state is unchanged.
\<close>

lemma netns_guard_unset_noop:
  assumes "netns_name nd = None"
  shows "NETDEV_NETNS_ENTER os nd w = Some (None, w) \<and> NETDEV_NETNS_EXIT os nd w = (None, w)"
  using assms by (simp add: NETDEV_NETNS_ENTER_def NETDEV_NETNS_EXIT_def)

text \<open>
  C3 at a failing input. The handle's namespace name is the empty string. Its context is
  the default one, prepared without opening or entering anything and with descriptor
  \<open>- 1\<close>; the guard in \<^verbatim>\<open>osmo_netdev_register\<close> still calls
  \<^verbatim>\<open>osmo_netns_switch_enter\<close>, on that descriptor, and the failure of the call makes
  \<^verbatim>\<open>osmo_netdev_register\<close> return \<open>- EACCES\<close>.
\<close>

theorem register_empty_netns_name_enters:
  "map_option netns_name (obj_at 1 (g_netdev_list w_empty_unreg)) = Some (Some [])
   \<and> os_trace w_empty_unreg = [Talloc_zero]
   \<and> map_option fst (osmo_netdev_register os_ok 1 w_empty_unreg) = Some (- EACCES)
   \<and> map_option (os_trace \<circ> snd) (osmo_netdev_register os_ok 1 w_empty_unreg)
       = Some [Osmo_netns_switch_enter (- 1), Talloc_zero, Talloc_zero]"
  by code_simp

subsection \<open>The pool: acquiring and releasing\<close>

lemma obj_upd_absent: "p \<notin> fst ` set xs \<Longrightarrow> obj_upd p v xs = xs"
  by (induction xs) (auto simp: obj_upd_def)

lemma llist_del_absent: "p \<notin> fst ` set xs \<Longrightarrow> llist_del p xs = xs"
  by (induction xs) (auto simp: llist_del_def)

lemma obj_at_absent: "p \<notin> fst ` set xs \<Longrightarrow> obj_at p xs = None"
  by (simp add: obj_at_def map_of_eq_None_iff)

lemma obj_at_in_set: "obj_at p xs = Some c \<Longrightarrow> (p, c) \<in> set xs"
  by (simp add: obj_at_def map_of_SomeD)

lemma obj_at_append_fresh:
  "p \<notin> fst ` set xs \<Longrightarrow> obj_at p (xs @ [(p, c)]) = Some c"
  by (simp add: obj_at_def map_add_Some_iff map_of_eq_None_iff)

lemma obj_upd_append_fresh:
  "p \<notin> fst ` set xs \<Longrightarrow> obj_upd p v (xs @ [(p, c)]) = xs @ [(p, v)]"
  using obj_upd_absent [of p xs v] by (simp add: obj_upd_def)

lemma llist_del_append_fresh:
  "p \<notin> fst ` set xs \<Longrightarrow> llist_del p (xs @ [(p, c)]) = xs"
  using llist_del_absent [of p xs] by (simp add: llist_del_def)

lemma map_fst_obj_upd: "map fst (obj_upd p v xs) = map fst xs"
  by (induction xs) (auto simp: obj_upd_def)

lemma set_obj_upd: "set (obj_upd p v xs) \<subseteq> insert (p, v) (set xs)"
  by (induction xs) (auto simp: obj_upd_def)

lemma map_name_obj_upd:
  "distinct (map fst xs) \<Longrightarrow> obj_at p xs = Some c \<Longrightarrow> ctx_netns_name v = ctx_netns_name c
   \<Longrightarrow> map (ctx_netns_name \<circ> snd) (obj_upd p v xs) = map (ctx_netns_name \<circ> snd) xs"
proof (induction xs)
  case Nil
  then show ?case by (simp add: obj_upd_def)
next
  case (Cons e xs)
  obtain a d where e: "e = (a, d)" by (cases e)
  show ?case
  proof (cases "a = p")
    case True
    with Cons.prems e have "d = c" "p \<notin> fst ` set xs"
      by (auto simp: obj_at_def)
    then show ?thesis
      using Cons.prems(3) e True obj_upd_absent [of p xs v]
      by (simp add: obj_upd_def)
  next
    case False
    with Cons e show ?thesis
      by (simp add: obj_upd_def obj_at_def)
  qed
qed

lemma find_None_iff:
  "netdev_netns_ctx_find_by_netns_name ns xs = None \<longleftrightarrow> ns \<notin> set (map (ctx_netns_name \<circ> snd) xs)"
proof (induction xs)
  case Nil
  then show ?case by simp
next
  case (Cons e xs)
  then show ?case by (cases e) auto
qed

lemma find_Some_name:
  "netdev_netns_ctx_find_by_netns_name ns xs = Some p \<Longrightarrow>
     \<exists>c. (p, c) \<in> set xs \<and> ctx_netns_name c = ns"
  by (induction xs) (auto split: if_splits)

lemma obj_at_distinct:
  "distinct (map fst xs) \<Longrightarrow> (p, c) \<in> set xs \<Longrightarrow> obj_at p xs = Some c"
  by (simp add: obj_at_def)

lemma addrs_fresh_next: "addrs_fresh w \<Longrightarrow> next_addr w \<notin> fst ` set (g_netdev_netns_ctx_list w)"
  by (auto simp: addrs_fresh_def list_all_iff)

lemma netdev_netns_ctx_ref_Some:
  "netdev_netns_ctx_ref p w = Some (pp, w') \<longleftrightarrow>
     (\<exists>c. obj_at p (g_netdev_netns_ctx_list w) = Some c \<and> pp = Some p
        \<and> w' = set_ctx p (c\<lparr>refcount := refcount c + 1\<rparr>) w)"
  by (auto simp: netdev_netns_ctx_ref_def split: option.splits)

lemma netdev_netns_ctx_init_fresh:
  assumes "p \<notin> fst ` set xs" and "g_netdev_netns_ctx_list w = xs @ [(p, c0)]"
    and "netdev_netns_ctx_init os p w = Some (rc, w')"
  shows "\<exists>fd. g_netdev_netns_ctx_list w' = xs @ [(p, c0\<lparr>netns_fd := fd\<rparr>)]
      \<and> next_addr w' = next_addr w \<and> g_netdev_list w' = g_netdev_list w
      \<and> (ctx_netns_name c0 = [] \<longrightarrow> fd = netns_fd c0 \<and> rc = 0 \<and> os_trace w' = os_trace w)
      \<and> (ctx_netns_name c0 \<noteq> [] \<longrightarrow> 0 \<le> rc \<longrightarrow> 0 \<le> fd)"
proof -
  have at: "obj_at p (g_netdev_netns_ctx_list w) = Some c0"
    using assms(1,2) by (simp add: obj_at_append_fresh)
  show ?thesis
  proof (cases "ctx_netns_name c0 = []")
    case True
    with at assms(2,3) show ?thesis
      by (intro exI [of _ "netns_fd c0"])
        (auto simp: netdev_netns_ctx_init_def netdev_netns_ctx_init_enter_def)
  next
    case False
    let ?fd = "osmo_netns_open_fd os (os_trace w) (ctx_netns_name c0)"
    show ?thesis
      using False at assms
      by (intro exI [of _ ?fd])
        (auto simp: netdev_netns_ctx_init_def netdev_netns_ctx_init_enter_def Let_def
          set_ctx_def os_log_def obj_upd_append_fresh split: if_splits)
  qed
qed

lemma netdev_netns_ctx_get_new:
  assumes "netdev_netns_ctx_find_by_netns_name ns (g_netdev_netns_ctx_list w) = None"
    and "addrs_fresh w"
    and "netdev_netns_ctx_get os ns w = Some (pp, w')"
  shows "g_netdev_list w' = g_netdev_list w
     \<and> ((pp = None \<and> g_netdev_netns_ctx_list w' = g_netdev_netns_ctx_list w
          \<and> next_addr w \<le> next_addr w')
       \<or> (\<exists>fd. pp = Some (next_addr w)
            \<and> g_netdev_netns_ctx_list w'
                = g_netdev_netns_ctx_list w
                  @ [(next_addr w, \<lparr>refcount = 1, ctx_netns_name = ns, netns_fd = fd\<rparr>)]
            \<and> next_addr w' = Suc (next_addr w)
            \<and> (ns = [] \<longrightarrow> fd = - 1) \<and> (ns \<noteq> [] \<longrightarrow> 0 \<le> fd)))"
proof (cases "talloc_zero_ok os (os_trace w)")
  case False
  with assms show ?thesis
    by (auto simp: netdev_netns_ctx_get_def netdev_netns_ctx_alloc_def os_log_def)
next
  case True
  let ?p = "next_addr w"
  let ?c0 = "\<lparr>refcount = 0, ctx_netns_name = ns, netns_fd = - 1\<rparr>"
  let ?w1 = "(os_log Talloc_zero w)\<lparr>g_netdev_netns_ctx_list :=
                g_netdev_netns_ctx_list w @ [(?p, ?c0)], next_addr := Suc ?p\<rparr>"
  have fresh: "?p \<notin> fst ` set (g_netdev_netns_ctx_list w)"
    using assms(2) by (rule addrs_fresh_next)
  have alloc: "netdev_netns_ctx_alloc os ns w = (Some ?p, ?w1)"
    using True by (simp add: netdev_netns_ctx_alloc_def Let_def os_log_def llist_add_tail_def)
  have pool1: "g_netdev_netns_ctx_list ?w1 = g_netdev_netns_ctx_list w @ [(?p, ?c0)]"
    by (simp add: os_log_def)
  from assms(1,3) alloc obtain rc w2 where
    init: "netdev_netns_ctx_init os ?p ?w1 = Some (rc, w2)"
    and rest: "(if rc < 0 then (case netdev_netns_ctx_free (Some ?p) w2 of
                     None \<Rightarrow> None | Some w3 \<Rightarrow> Some (None, w3))
                else netdev_netns_ctx_ref ?p w2) = Some (pp, w')"
    by (auto simp: netdev_netns_ctx_get_def split: option.splits)
  from netdev_netns_ctx_init_fresh [OF fresh pool1 init] obtain fd where
    w2: "g_netdev_netns_ctx_list w2 = g_netdev_netns_ctx_list w @ [(?p, ?c0\<lparr>netns_fd := fd\<rparr>)]"
      "next_addr w2 = Suc ?p" "g_netdev_list w2 = g_netdev_list w"
      "ns = [] \<longrightarrow> fd = - 1" "ns \<noteq> [] \<longrightarrow> 0 \<le> rc \<longrightarrow> 0 \<le> fd"
    by (auto simp: os_log_def)
  have at2: "obj_at ?p (g_netdev_netns_ctx_list w2) = Some (?c0\<lparr>netns_fd := fd\<rparr>)"
    using fresh w2(1) by (simp add: obj_at_append_fresh)
  show ?thesis
  proof (cases "rc < 0")
    case True
    with rest at2 w2 fresh show ?thesis
      by (auto simp: netdev_netns_ctx_free_def os_log_def llist_del_append_fresh Let_def
          split: if_splits)
  next
    case False
    with rest at2 w2 fresh show ?thesis
      by (auto simp: netdev_netns_ctx_ref_Some set_ctx_def obj_upd_append_fresh)
  qed
qed

lemma pool_wf_iff:
  "pool_wf n w \<longleftrightarrow>
     distinct (map fst (g_netdev_netns_ctx_list w))
     \<and> distinct (map (ctx_netns_name \<circ> snd) (g_netdev_netns_ctx_list w))
     \<and> (\<forall>(p, c) \<in> set (g_netdev_netns_ctx_list w).
           p < next_addr w \<and> 0 < refcount c \<and> unat (refcount c) \<le> n)"
  by (auto simp: pool_wf_def addrs_fresh_def pool_inv_def names_distinct_def
      counts_positive_def list_all_iff)

lemma pool_wf_same:
  assumes "pool_wf n w" and "g_netdev_netns_ctx_list w' = g_netdev_netns_ctx_list w"
    and "next_addr w \<le> next_addr w'" and "n \<le> m"
  shows "pool_wf m w'"
  using assms by (fastforce simp: pool_wf_iff)

lemma pool_wf_del:
  assumes "pool_wf n w"
    and "g_netdev_netns_ctx_list w' = llist_del p (g_netdev_netns_ctx_list w)"
    and "next_addr w' = next_addr w"
  shows "pool_wf n w'"
  using assms by (auto simp: pool_wf_iff llist_del_def distinct_map_filter)

lemma pool_wf_upd:
  assumes wf: "pool_wf n w"
    and at: "obj_at p (g_netdev_netns_ctx_list w) = Some c"
    and pool: "g_netdev_netns_ctx_list w' = obj_upd p c' (g_netdev_netns_ctx_list w)"
    and nx: "next_addr w' = next_addr w"
    and nm: "ctx_netns_name c' = ctx_netns_name c"
    and rc: "0 < refcount c'" "unat (refcount c') \<le> m" and nm_le: "n \<le> m"
  shows "pool_wf m w'"
proof -
  have d: "distinct (map fst (g_netdev_netns_ctx_list w))"
    using wf by (simp add: pool_wf_iff)
  have p: "p < next_addr w"
    using wf obj_at_in_set [OF at] by (auto simp: pool_wf_iff)
  have "\<forall>(q, d) \<in> set (obj_upd p c' (g_netdev_netns_ctx_list w)).
          q < next_addr w \<and> 0 < refcount d \<and> unat (refcount d) \<le> m"
    using wf p rc nm_le set_obj_upd [of p c' "g_netdev_netns_ctx_list w"]
    by (fastforce simp: pool_wf_iff)
  then show ?thesis
    using wf d pool nx map_name_obj_upd [OF d at nm]
    by (simp add: pool_wf_iff map_fst_obj_upd)
qed

lemma netdev_netns_ctx_put_wf:
  assumes "pool_wf n w" and "netdev_netns_ctx_put pp w = Some w'"
  shows "pool_wf n w'"
proof -
  from assms(2) obtain p c where pp: "pp = Some p"
    and at: "obj_at p (g_netdev_netns_ctx_list w) = Some c"
    by (auto simp: netdev_netns_ctx_put_def split: option.splits)
  have pos: "0 < refcount c" and le: "unat (refcount c) \<le> n"
    using assms(1) obj_at_in_set [OF at] by (auto simp: pool_wf_iff)
  note put = netdev_netns_ctx_put_live [OF at]
  show ?thesis
  proof (cases "refcount c = 1")
    case True
    with put assms(2) pp show ?thesis
      by (intro pool_wf_del [OF assms(1), of w' p]) (auto simp: os_log_def split: if_splits)
  next
    case False
    have pos': "0 < refcount c - 1"
      using False by (metis right_minus_eq word_neq_0_conv)
    have "unat (refcount c - 1) \<le> unat (refcount c)"
      using pos by (simp add: unat_minus_one word_neq_0_conv [symmetric])
    with le have le': "unat (refcount c - 1) \<le> n"
      by simp
    from False put assms(2) pp
    have w': "w' = set_ctx p (c\<lparr>refcount := refcount c - 1\<rparr>) w"
      by simp
    show ?thesis
      by (rule pool_wf_upd [OF assms(1) at, of w' "c\<lparr>refcount := refcount c - 1\<rparr>" n])
        (use w' pos' le' in \<open>simp_all add: set_ctx_def\<close>)
  qed
qed

subsection \<open>Every public call preserves the invariant\<close>

lemma unat_incr: "(c :: 32 word) \<noteq> - 1 \<Longrightarrow> unat (c + 1) = Suc (unat c)"
  by (simp add: add.commute add_eq_0_iff unatSuc)

lemma unat_incr_less:
  assumes "(c :: 32 word) \<noteq> - 1"
  shows "Suc (unat c) < 2 ^ 32"
proof -
  have "unat (c + 1) < 2 ^ 32"
    using unsigned_less [of "c + 1", where 'a = nat] by simp
  with unat_incr [OF assms] show ?thesis
    by simp
qed

lemma refcount_bound_no_wrap:
  assumes "unat (c :: 32 word) \<le> n" and "Suc n < 2 ^ 32"
  shows "c \<noteq> - 1"
proof
  assume "c = - 1"
  then have "unat (c + 1) = 0"
    by simp
  moreover have "unat (c + 1) = (unat c + 1) mod 2 ^ 32"
    by (simp add: unat_word_ariths)
  ultimately show False
    using assms by simp
qed

lemma netdev_netns_ctx_get_wf:
  assumes wf: "pool_wf n w"
    and safe: "\<forall>p c. netdev_netns_ctx_find_by_netns_name ns (g_netdev_netns_ctx_list w) = Some p
                 \<longrightarrow> obj_at p (g_netdev_netns_ctx_list w) = Some c \<longrightarrow> refcount c \<noteq> - 1"
    and get: "netdev_netns_ctx_get os ns w = Some (pp, w')"
  shows "pool_wf (Suc n) w'"
proof (cases "netdev_netns_ctx_find_by_netns_name ns (g_netdev_netns_ctx_list w)")
  case (Some p)
  with get obtain c where at: "obj_at p (g_netdev_netns_ctx_list w) = Some c"
    and w': "w' = set_ctx p (c\<lparr>refcount := refcount c + 1\<rparr>) w"
    by (auto simp: netdev_netns_ctx_get_def netdev_netns_ctx_ref_Some)
  have le: "unat (refcount c) \<le> n"
    using wf obj_at_in_set [OF at] by (auto simp: pool_wf_iff)
  have "refcount c \<noteq> - 1"
    using safe Some at by blast
  then have u: "unat (refcount c + 1) = Suc (unat (refcount c))"
    by (rule unat_incr)
  then have pos: "0 < refcount c + 1"
    by (metis unat_gt_0 word_neq_0_conv zero_less_Suc)
  show ?thesis
    by (rule pool_wf_upd [OF wf at, of w' "c\<lparr>refcount := refcount c + 1\<rparr>"])
      (use w' pos u le in \<open>simp_all add: set_ctx_def\<close>)
next
  case None
  have fresh: "addrs_fresh w"
    using wf by (simp add: pool_wf_def)
  from netdev_netns_ctx_get_new [OF None fresh get]
  consider "g_netdev_netns_ctx_list w' = g_netdev_netns_ctx_list w" "next_addr w \<le> next_addr w'"
    | fd where "g_netdev_netns_ctx_list w'
                = g_netdev_netns_ctx_list w
                  @ [(next_addr w, \<lparr>refcount = 1, ctx_netns_name = ns, netns_fd = fd\<rparr>)]"
        "next_addr w' = Suc (next_addr w)"
    by blast
  then show ?thesis
  proof cases
    case 1
    with wf show ?thesis
      by (intro pool_wf_same [OF wf]) simp_all
  next
    case 2
    have "ns \<notin> set (map (ctx_netns_name \<circ> snd) (g_netdev_netns_ctx_list w))"
      using None by (simp add: find_None_iff)
    with wf 2 addrs_fresh_next [OF fresh] show ?thesis
      by (fastforce simp: pool_wf_iff)
  qed
qed

lemma NETDEV_NETNS_ENTER_frame:
  "NETDEV_NETNS_ENTER os nd w = Some (r, w') \<Longrightarrow>
     g_netdev_netns_ctx_list w' = g_netdev_netns_ctx_list w \<and> next_addr w' = next_addr w
     \<and> g_netdev_list w' = g_netdev_list w"
  by (auto simp: NETDEV_NETNS_ENTER_def os_log_def Let_def split: option.splits if_splits)

lemma NETDEV_NETNS_EXIT_frame:
  "NETDEV_NETNS_EXIT os nd w = (r, w') \<Longrightarrow>
     g_netdev_netns_ctx_list w' = g_netdev_netns_ctx_list w \<and> next_addr w' = next_addr w
     \<and> g_netdev_list w' = g_netdev_list w"
  by (auto simp: NETDEV_NETNS_EXIT_def os_log_def Let_def split: option.splits if_splits)

lemma osmo_netdev_register_entered_wf:
  assumes wf: "pool_wf n w"
    and reg: "osmo_netdev_register_entered os h nd w = Some (rc, w')"
  shows "pool_wf n w'"
proof (cases "if_indextoname os (os_trace w) (ifindex nd)")
  case None
  let ?w1 = "os_log (If_indextoname (ifindex nd)) w"
  obtain r w2 where ex: "NETDEV_NETNS_EXIT os nd ?w1 = (r, w2)"
    by (cases "NETDEV_NETNS_EXIT os nd ?w1")
  have wf2: "pool_wf n w2"
    using NETDEV_NETNS_EXIT_frame [OF ex]
    by (intro pool_wf_same [OF wf]) (simp_all add: os_log_def)
  show ?thesis
  proof (cases r)
    case (Some rc2)
    with reg None ex wf2 show ?thesis
      by (simp add: osmo_netdev_register_entered_def)
  next
    case None': None
    with reg None ex obtain w3 where "netdev_netns_ctx_put (netns_ctx nd) w2 = Some w3" "w' = w3"
      by (auto simp: osmo_netdev_register_entered_def split: option.splits)
    with wf2 show ?thesis
      using netdev_netns_ctx_put_wf by blast
  qed
next
  case (Some ifnamebuf)
  let ?nd1 = "nd\<lparr>dev_name := osmo_talloc_replace_string (Some ifnamebuf)\<rparr>"
  let ?w2 = "set_netdev h ?nd1 (os_log (If_indextoname (ifindex nd)) w)"
  obtain r w3 where ex: "NETDEV_NETNS_EXIT os ?nd1 ?w2 = (r, w3)"
    by (cases "NETDEV_NETNS_EXIT os ?nd1 ?w2")
  have wf3: "pool_wf n w3"
    using NETDEV_NETNS_EXIT_frame [OF ex]
    by (intro pool_wf_same [OF wf]) (simp_all add: os_log_def set_netdev_def)
  from reg Some ex have "w' = w3 \<or> w' = set_netdev h (?nd1\<lparr>registered := True\<rparr>) w3"
    by (auto simp: osmo_netdev_register_entered_def Let_def split: option.splits)
  then show ?thesis
    using wf3 by (auto intro: pool_wf_same [OF wf3] simp: set_netdev_def)
qed

lemma register_safe_get:
  assumes "register_safe h w" and "obj_at h (g_netdev_list w) = Some nd" and "\<not> registered nd"
  shows "\<forall>p c. netdev_netns_ctx_find_by_netns_name
                 (case netns_name nd of None \<Rightarrow> [] | Some s \<Rightarrow> s)
                 (g_netdev_netns_ctx_list w) = Some p
            \<longrightarrow> obj_at p (g_netdev_netns_ctx_list w) = Some c \<longrightarrow> refcount c \<noteq> - 1"
  using assms by (auto simp: register_safe_def)

lemma osmo_netdev_register_wf:
  assumes wf: "pool_wf n w" and safe: "register_safe h w"
    and reg: "osmo_netdev_register os h w = Some (rc, w')"
  shows "pool_wf (Suc n) w'"
proof -
  from reg obtain nd where nd: "obj_at h (g_netdev_list w) = Some nd"
    by (auto simp: osmo_netdev_register_def split: option.splits)
  show ?thesis
  proof (cases "registered nd")
    case True
    with reg nd have "w' = w"
      by (simp add: osmo_netdev_register_def)
    with wf show ?thesis
      by (intro pool_wf_same [OF wf]) simp_all
  next
    case False
    let ?ns = "case netns_name nd of None \<Rightarrow> [] | Some s \<Rightarrow> s"
    from reg nd False obtain pp wg where get: "netdev_netns_ctx_get os ?ns w = Some (pp, wg)"
      by (auto simp: osmo_netdev_register_def split: option.splits)
    have wfg: "pool_wf (Suc n) wg"
      by (rule netdev_netns_ctx_get_wf [OF wf register_safe_get [OF safe nd False] get])
    let ?nd1 = "nd\<lparr>netns_ctx := pp\<rparr>"
    let ?w2 = "set_netdev h ?nd1 wg"
    have wf2: "pool_wf (Suc n) ?w2"
      by (intro pool_wf_same [OF wfg]) (simp_all add: set_netdev_def)
    show ?thesis
    proof (cases pp)
      case None
      with reg nd False get have "w' = ?w2"
        by (simp add: osmo_netdev_register_def Let_def)
      with wf2 show ?thesis by simp
    next
      case (Some p)
      with reg nd False get obtain r w3 where en: "NETDEV_NETNS_ENTER os ?nd1 ?w2 = Some (r, w3)"
        and rest: "(case r of Some rc' \<Rightarrow> Some (rc', w3)
                    | None \<Rightarrow> osmo_netdev_register_entered os h ?nd1 w3) = Some (rc, w')"
        by (auto simp: osmo_netdev_register_def Let_def split: option.splits)
      have wf3: "pool_wf (Suc n) w3"
        using NETDEV_NETNS_ENTER_frame [OF en]
        by (intro pool_wf_same [OF wf2]) simp_all
      from rest show ?thesis
        using wf3 osmo_netdev_register_entered_wf [OF wf3]
        by (auto split: option.splits)
    qed
  qed
qed

lemma osmo_netdev_unregister_wf:
  assumes wf: "pool_wf n w" and un: "osmo_netdev_unregister h w = Some (rc, w')"
  shows "pool_wf n w'"
proof -
  from un obtain nd where nd: "obj_at h (g_netdev_list w) = Some nd"
    by (auto simp: osmo_netdev_unregister_def split: option.splits)
  show ?thesis
  proof (cases "registered nd")
    case False
    with un nd wf show ?thesis
      by (simp add: osmo_netdev_unregister_def)
  next
    case True
    let ?nd1 = "nd\<lparr>if_up_known := False, if_mtu_known := False\<rparr>"
    from un nd True obtain w2 where
      put: "netdev_netns_ctx_put (netns_ctx ?nd1) (set_netdev h ?nd1 w) = Some w2"
      and w': "w' = set_netdev h (?nd1\<lparr>registered := False\<rparr>) w2"
      by (auto simp: osmo_netdev_unregister_def Let_def split: option.splits)
    have "pool_wf n (set_netdev h ?nd1 w)"
      by (intro pool_wf_same [OF wf]) (simp_all add: set_netdev_def)
    then have wf2: "pool_wf n w2"
      using put by (rule netdev_netns_ctx_put_wf)
    show ?thesis
      unfolding w' by (rule pool_wf_same [OF wf2]) (simp_all add: set_netdev_def)
  qed
qed

lemma osmo_netdev_free_wf:
  assumes wf: "pool_wf n w" and fr: "osmo_netdev_free hp w = Some w'"
  shows "pool_wf n w'"
proof (cases hp)
  case None
  with fr wf show ?thesis by (simp add: osmo_netdev_free_def)
next
  case (Some h)
  with fr obtain w1 where
    w1: "w1 = w \<or> (\<exists>rc. osmo_netdev_unregister h w = Some (rc, w1))"
    and w': "w' = w1\<lparr>g_netdev_list := llist_del h (g_netdev_list w1)\<rparr>"
    by (auto simp: osmo_netdev_free_def split: option.splits if_splits)
  from w1 wf have wf1: "pool_wf n w1"
    using osmo_netdev_unregister_wf by blast
  show ?thesis
    unfolding w' by (rule pool_wf_same [OF wf1]) simp_all
qed

lemma ops_frame:
  "osmo_netdev_ifupdown os h ifupdown w = Some (rc, w') \<Longrightarrow>
     g_netdev_netns_ctx_list w' = g_netdev_netns_ctx_list w \<and> next_addr w' = next_addr w"
  "osmo_netdev_add_addr os h addr prefixlen w = Some (rc, w') \<Longrightarrow>
     g_netdev_netns_ctx_list w' = g_netdev_netns_ctx_list w \<and> next_addr w' = next_addr w"
  "osmo_netdev_add_route os h dst_addr dst_prefixlen gw_addr w = Some (rc, w') \<Longrightarrow>
     g_netdev_netns_ctx_list w' = g_netdev_netns_ctx_list w \<and> next_addr w' = next_addr w"
  by (auto simp: osmo_netdev_ifupdown_def osmo_netdev_add_addr_def osmo_netdev_add_route_def
      NETDEV_NETNS_ENTER_def NETDEV_NETNS_EXIT_def os_log_def Let_def
      split: option.splits if_splits)

lemma setters_frame:
  "osmo_netdev_set_ifindex h idx w = Some (rc, w') \<Longrightarrow>
     g_netdev_netns_ctx_list w' = g_netdev_netns_ctx_list w \<and> next_addr w' = next_addr w"
  "osmo_netdev_set_netns_name h s w = Some (rc, w') \<Longrightarrow>
     g_netdev_netns_ctx_list w' = g_netdev_netns_ctx_list w \<and> next_addr w' = next_addr w"
  "osmo_netdev_set_priv_data h pd w = Some w' \<Longrightarrow>
     g_netdev_netns_ctx_list w' = g_netdev_netns_ctx_list w \<and> next_addr w' = next_addr w"
  "osmo_netdev_set_ifupdown_ind_cb h cb w = Some w' \<Longrightarrow>
     g_netdev_netns_ctx_list w' = g_netdev_netns_ctx_list w \<and> next_addr w' = next_addr w"
  "osmo_netdev_set_dev_name_chg_cb h cb w = Some w' \<Longrightarrow>
     g_netdev_netns_ctx_list w' = g_netdev_netns_ctx_list w \<and> next_addr w' = next_addr w"
  "osmo_netdev_set_mtu_chg_cb h cb w = Some w' \<Longrightarrow>
     g_netdev_netns_ctx_list w' = g_netdev_netns_ctx_list w \<and> next_addr w' = next_addr w"
  by (auto simp: osmo_netdev_set_ifindex_def osmo_netdev_set_netns_name_def
      osmo_netdev_set_priv_data_def osmo_netdev_set_ifupdown_ind_cb_def
      osmo_netdev_set_dev_name_chg_cb_def osmo_netdev_set_mtu_chg_cb_def set_netdev_def
      split: option.splits if_splits)

lemma osmo_netdev_alloc_frame:
  "g_netdev_netns_ctx_list (snd (osmo_netdev_alloc os nm w)) = g_netdev_netns_ctx_list w
   \<and> next_addr w \<le> next_addr (snd (osmo_netdev_alloc os nm w))"
  by (simp add: osmo_netdev_alloc_def os_log_def Let_def)

lemma api_step_wf:
  assumes wf: "pool_wf n w" and step: "api_step os c w = Some w'"
    and safe: "call_safe c w"
  shows "pool_wf (if is_register c then Suc n else n) w'"
proof (cases c)
  case (Alloc nm)
  with step have "w' = snd (osmo_netdev_alloc os nm w)" by simp
  with osmo_netdev_alloc_frame [of os nm w] Alloc show ?thesis
    by (simp add: pool_wf_same [OF wf])
next
  case (Free hp)
  with step osmo_netdev_free_wf [OF wf, of hp w'] show ?thesis by simp
next
  case (Register h)
  with step safe obtain rc where "register_safe h w" "osmo_netdev_register os h w = Some (rc, w')"
    by auto
  from osmo_netdev_register_wf [OF wf this] Register show ?thesis by simp
next
  case (Unregister h)
  with step obtain rc where "osmo_netdev_unregister h w = Some (rc, w')" by auto
  from osmo_netdev_unregister_wf [OF wf this] Unregister show ?thesis by simp
next
  case (Set_ifindex h idx)
  with step obtain rc where "osmo_netdev_set_ifindex h idx w = Some (rc, w')" by auto
  from setters_frame(1) [OF this] Set_ifindex show ?thesis
    by (simp add: pool_wf_same [OF wf])
next
  case (Set_netns_name h s)
  with step obtain rc where "osmo_netdev_set_netns_name h s w = Some (rc, w')" by auto
  from setters_frame(2) [OF this] Set_netns_name show ?thesis
    by (simp add: pool_wf_same [OF wf])
next
  case (Set_priv_data h pd)
  with step have "osmo_netdev_set_priv_data h pd w = Some w'" by simp
  from setters_frame(3) [OF this] Set_priv_data show ?thesis
    by (simp add: pool_wf_same [OF wf])
next
  case (Set_ifupdown_ind_cb h cb)
  with step have "osmo_netdev_set_ifupdown_ind_cb h cb w = Some w'" by simp
  from setters_frame(4) [OF this] Set_ifupdown_ind_cb show ?thesis
    by (simp add: pool_wf_same [OF wf])
next
  case (Set_dev_name_chg_cb h cb)
  with step have "osmo_netdev_set_dev_name_chg_cb h cb w = Some w'" by simp
  from setters_frame(5) [OF this] Set_dev_name_chg_cb show ?thesis
    by (simp add: pool_wf_same [OF wf])
next
  case (Set_mtu_chg_cb h cb)
  with step have "osmo_netdev_set_mtu_chg_cb h cb w = Some w'" by simp
  from setters_frame(6) [OF this] Set_mtu_chg_cb show ?thesis
    by (simp add: pool_wf_same [OF wf])
next
  case (Ifupdown h b)
  with step obtain rc where "osmo_netdev_ifupdown os h b w = Some (rc, w')" by auto
  from ops_frame(1) [OF this] Ifupdown show ?thesis
    by (simp add: pool_wf_same [OF wf])
next
  case (Add_addr h a l)
  with step obtain rc where "osmo_netdev_add_addr os h a l w = Some (rc, w')" by auto
  from ops_frame(2) [OF this] Add_addr show ?thesis
    by (simp add: pool_wf_same [OF wf])
next
  case (Add_route h a l g)
  with step obtain rc where "osmo_netdev_add_route os h a l g w = Some (rc, w')" by auto
  from ops_frame(3) [OF this] Add_route show ?thesis
    by (simp add: pool_wf_same [OF wf])
qed

lemma run_wf:
  assumes "pool_wf n w" and "run os cs w = Some w'" and "no_wrap os cs w"
  shows "pool_wf (n + register_calls cs) w'"
  using assms
proof (induction cs arbitrary: n w)
  case Nil
  then show ?case by (simp add: register_calls_def)
next
  case (Cons c cs)
  from Cons.prems(2) obtain w1 where step: "api_step os c w = Some w1"
    and rest: "run os cs w1 = Some w'"
    by (auto split: option.splits)
  from Cons.prems(3) step have safe: "call_safe c w" and nw: "no_wrap os cs w1"
    by simp_all
  note wf1 = api_step_wf [OF Cons.prems(1) step safe]
  from Cons.IH [OF wf1 rest nw] show ?case
    by (cases "is_register c") (simp_all add: register_calls_def)
qed

text \<open>A program with fewer than \<open>2 ^ 32\<close> registrations wraps no reference count.\<close>

lemma bound_call_safe:
  assumes wf: "pool_wf n w" and n: "is_register c \<longrightarrow> Suc n < 2 ^ 32"
  shows "call_safe c w"
proof (cases c)
  case (Register h)
  have "refcount d \<noteq> - 1" if "obj_at p (g_netdev_netns_ctx_list w) = Some d" for p d
  proof -
    have "unat (refcount d) \<le> n"
      using wf obj_at_in_set [OF that] by (auto simp: pool_wf_iff)
    with n Register show ?thesis
      by (simp add: refcount_bound_no_wrap)
  qed
  with Register show ?thesis
    by (simp add: register_safe_def split: option.splits)
qed simp_all

lemma bound_no_wrap:
  assumes "pool_wf n w" and "n + register_calls cs < 2 ^ 32"
  shows "no_wrap os cs w"
  using assms
proof (induction cs arbitrary: n w)
  case Nil
  then show ?case by simp
next
  case (Cons c cs)
  have n: "is_register c \<longrightarrow> Suc n < 2 ^ 32"
    using Cons.prems(2) by (auto simp: register_calls_def)
  have safe: "call_safe c w"
    by (rule bound_call_safe [OF Cons.prems(1) n])
  have "no_wrap os cs w1" if step: "api_step os c w = Some w1" for w1
  proof -
    note wf1 = api_step_wf [OF Cons.prems(1) step safe]
    show ?thesis
      using Cons.prems(2)
      by (intro Cons.IH [OF wf1]) (auto simp: register_calls_def)
  qed
  with safe show ?case
    by (simp split: option.splits)
qed

lemma pool_wf_world0: "pool_wf 0 world0"
  by (simp add: pool_wf_iff world0_def)

subsection \<open>Runs with fewer than \<open>2 ^ 32\<close> registrations\<close>

lemma run_append:
  "run os (cs @ ds) w = (case run os cs w of None \<Rightarrow> None | Some w' \<Rightarrow> run os ds w')"
  by (induction cs arbitrary: w) (auto split: option.splits)

text \<open>
  A program with fewer than \<open>2 ^ 32\<close> calls of \<^verbatim>\<open>osmo_netdev_register\<close> wraps no
  reference count around, so both halves of the invariant hold in the state it reaches.
\<close>

lemma pool_inv_bounded:
  assumes "run os cs world0 = Some w" and "register_calls cs < 2 ^ 32"
  shows "pool_inv w"
proof -
  have "no_wrap os cs world0"
    using assms(2) by (intro bound_no_wrap [OF pool_wf_world0]) simp
  from run_wf [OF pool_wf_world0 assms(1) this] show ?thesis
    by (simp add: pool_wf_def)
qed

subsection \<open>Successful registration and unregistration\<close>

lemma osmo_netdev_unregister_live:
  assumes "obj_at h (g_netdev_list w) = Some nd" and "registered nd"
    and "netns_ctx nd = Some p" and "obj_at p (g_netdev_netns_ctx_list w) = Some c"
  shows "osmo_netdev_unregister h w =
     Some (0, w\<lparr>g_netdev_list :=
                  obj_upd h (nd\<lparr>if_up_known := False, if_mtu_known := False,
                                 registered := False\<rparr>) (g_netdev_list w),
                g_netdev_netns_ctx_list :=
                  (if refcount c = 1 then llist_del p (g_netdev_netns_ctx_list w)
                   else obj_upd p (c\<lparr>refcount := refcount c - 1\<rparr>)
                          (g_netdev_netns_ctx_list w)),
                os_trace :=
                  (if refcount c = 1 \<and> netns_fd c \<noteq> - 1 then [Close (netns_fd c)] else [])
                  @ os_trace w\<rparr>)"
proof -
  let ?nd1 = "nd\<lparr>if_up_known := False, if_mtu_known := False\<rparr>"
  have live: "obj_at p (g_netdev_netns_ctx_list (set_netdev h ?nd1 w)) = Some c"
    using assms by (simp add: set_netdev_def)
  show ?thesis
    using assms netdev_netns_ctx_put_live [OF live]
    by (auto simp: osmo_netdev_unregister_def Let_def set_netdev_def set_ctx_def os_log_def
        obj_upd_obj_upd)
qed






subsection \<open>Registered handles and the contexts they point to\<close>

lemma obj_at_None_iff: "obj_at p xs = None \<longleftrightarrow> p \<notin> fst ` set xs"
  by (simp add: obj_at_def map_of_eq_None_iff)

lemma handles_inv_iff:
  "handles_inv w \<longleftrightarrow>
     distinct (map fst (g_netdev_list w))
     \<and> (\<forall>(h, nd) \<in> set (g_netdev_list w). h < next_addr w)
     \<and> refs_ok (g_netdev_netns_ctx_list w) (g_netdev_list w)"
  by (simp add: handles_inv_def)

lemma obj_upd_Cons:
  "obj_upd h v ((a, d) # xs) = (if a = h then (a, v) else (a, d)) # obj_upd h v xs"
  by (simp add: obj_upd_def)

lemma ctx_refs_Cons:
  "ctx_refs p ((a, d) # hl)
   = (if registered d \<and> netns_ctx d = Some p then 1 else 0) + ctx_refs p hl"
  by (simp add: ctx_refs_def)

lemma ctx_refs_upd:
  assumes "distinct (map fst hl)" and "obj_at h hl = Some nd"
  shows "ctx_refs p (obj_upd h nd' hl) + (if registered nd \<and> netns_ctx nd = Some p then 1 else 0)
       = ctx_refs p hl + (if registered nd' \<and> netns_ctx nd' = Some p then 1 else 0)"
  using assms
proof (induction hl)
  case Nil
  then show ?case by (simp add: obj_at_def)
next
  case (Cons e hl)
  obtain a d where e: "e = (a, d)" by (cases e)
  show ?case
  proof (cases "a = h")
    case True
    with Cons.prems e have "d = nd" "h \<notin> fst ` set hl"
      by (auto simp: obj_at_def)
    then show ?thesis
      using e True obj_upd_absent [of h hl nd']
      by (simp add: obj_upd_Cons ctx_refs_Cons)
  next
    case False
    with Cons.prems e have "distinct (map fst hl)" "obj_at h hl = Some nd"
      by (simp_all add: obj_at_def)
    from Cons.IH [OF this] False e show ?thesis
      by (simp add: obj_upd_Cons ctx_refs_Cons)
  qed
qed

lemma set_obj_upd_distinct:
  assumes "distinct (map fst hl)" and "obj_at h hl = Some nd"
  shows "set (obj_upd h nd' hl) = insert (h, nd') (set hl - {(h, nd)})"
  using assms
proof (induction hl)
  case Nil
  then show ?case by (simp add: obj_at_def)
next
  case (Cons e hl)
  obtain a d where e: "e = (a, d)" by (cases e)
  show ?case
  proof (cases "a = h")
    case True
    with Cons.prems e have "d = nd" "h \<notin> fst ` set hl"
      by (auto simp: obj_at_def)
    then have "(h, nd) \<notin> set hl" "obj_upd h nd' hl = hl"
      using obj_upd_absent [of h hl nd'] by force+
    then show ?thesis
      using e True \<open>d = nd\<close> by (simp add: obj_upd_def)
  next
    case False
    with Cons e show ?thesis
      by (auto simp: obj_upd_def obj_at_def)
  qed
qed

lemma ctx_refs_del: "ctx_refs p (llist_del h hl) \<le> ctx_refs p hl"
proof -
  have "length (filter P (filter Q xs)) \<le> length (filter P xs)" for P Q and xs :: "(nat \<times> osmo_netdev) list"
    by (induction xs) auto
  then show ?thesis
    by (simp add: ctx_refs_def llist_del_def)
qed

lemma ctx_refs_zero:
  "ctx_refs p hl = 0 \<longleftrightarrow> (\<forall>(h, nd) \<in> set hl. \<not> (registered nd \<and> netns_ctx nd = Some p))"
  by (auto simp: ctx_refs_def filter_empty_conv)

lemma refs_okI:
  assumes "\<And>h nd. (h, nd) \<in> set hl \<Longrightarrow> registered nd \<Longrightarrow>
             \<exists>p. netns_ctx nd = Some p \<and> p \<in> fst ` set xs"
    and "\<And>p c. (p, c) \<in> set xs \<Longrightarrow> ctx_refs p hl \<le> unat (refcount c)"
  shows "refs_ok xs hl"
  using assms unfolding refs_ok_def by blast

lemma refs_ok_live:
  "refs_ok xs hl \<Longrightarrow> (h, nd) \<in> set hl \<Longrightarrow> registered nd \<Longrightarrow>
     \<exists>p. netns_ctx nd = Some p \<and> p \<in> fst ` set xs"
  unfolding refs_ok_def by blast

lemma refs_ok_count:
  "refs_ok xs hl \<Longrightarrow> (p, c) \<in> set xs \<Longrightarrow> ctx_refs p hl \<le> unat (refcount c)"
  unfolding refs_ok_def by blast

lemma fst_set_obj_upd: "fst ` set (obj_upd p v xs) = fst ` set xs"
  using map_fst_obj_upd [of p v xs] by (metis set_map)

text \<open>A handle's entry is replaced by one that is registered with the same context, or unregistered.\<close>

lemma refs_ok_upd_same:
  assumes ok: "refs_ok xs hl" and d: "distinct (map fst hl)" and at: "obj_at h hl = Some nd"
    and same: "registered nd' \<longrightarrow> registered nd \<and> netns_ctx nd' = netns_ctx nd"
  shows "refs_ok xs (obj_upd h nd' hl)"
proof (rule refs_okI)
  fix k e assume in': "(k, e) \<in> set (obj_upd h nd' hl)" and r: "registered e"
  from in' have "(k, e) = (h, nd') \<or> (k, e) \<in> set hl"
    unfolding set_obj_upd_distinct [OF d at] by blast
  then show "\<exists>p. netns_ctx e = Some p \<and> p \<in> fst ` set xs"
  proof
    assume "(k, e) = (h, nd')"
    with r same have "registered nd" "netns_ctx e = netns_ctx nd"
      by simp_all
    with refs_ok_live [OF ok obj_at_in_set [OF at]] show ?thesis
      by simp
  next
    assume "(k, e) \<in> set hl"
    with ok r show ?thesis
      by (blast dest: refs_ok_live)
  qed
next
  fix p c assume "(p, c) \<in> set xs"
  then have "ctx_refs p hl \<le> unat (refcount c)"
    by (rule refs_ok_count [OF ok])
  moreover have "ctx_refs p (obj_upd h nd' hl) \<le> ctx_refs p hl"
    using ctx_refs_upd [OF d at, of p nd'] same by (auto split: if_splits)
  ultimately show "ctx_refs p (obj_upd h nd' hl) \<le> unat (refcount c)"
    by simp
qed

lemma refs_ok_del:
  assumes ok: "refs_ok xs hl"
  shows "refs_ok xs (llist_del h hl)"
proof (rule refs_okI)
  fix k e assume "(k, e) \<in> set (llist_del h hl)" and r: "registered e"
  then have "(k, e) \<in> set hl"
    by (simp add: llist_del_def)
  with ok r show "\<exists>p. netns_ctx e = Some p \<and> p \<in> fst ` set xs"
    by (blast dest: refs_ok_live)
next
  fix p c assume "(p, c) \<in> set xs"
  then have "ctx_refs p hl \<le> unat (refcount c)"
    by (rule refs_ok_count [OF ok])
  with ctx_refs_del [of p h hl] show "ctx_refs p (llist_del h hl) \<le> unat (refcount c)"
    by simp
qed

lemma ctx_refs_upd_less:
  assumes "distinct (map fst hl)" and "obj_at h hl = Some nd"
    and "registered nd" and "netns_ctx nd = Some p" and "\<not> registered nd'"
  shows "ctx_refs p (obj_upd h nd' hl) < ctx_refs p hl"
  using ctx_refs_upd [OF assms(1,2), of p nd'] assms(3-5) by simp

lemma refs_ok_upd_reg:
  assumes ok: "refs_ok xs hl" and d: "distinct (map fst hl)" and at: "obj_at h hl = Some nd"
    and p: "netns_ctx nd' = Some p" "obj_at p xs = Some c" and dx: "distinct (map fst xs)"
    and less: "ctx_refs p hl < unat (refcount c)"
  shows "refs_ok xs (obj_upd h nd' hl)"
proof (rule refs_okI)
  fix k e assume in': "(k, e) \<in> set (obj_upd h nd' hl)" and r: "registered e"
  from in' have "(k, e) = (h, nd') \<or> (k, e) \<in> set hl"
    unfolding set_obj_upd_distinct [OF d at] by blast
  then show "\<exists>q. netns_ctx e = Some q \<and> q \<in> fst ` set xs"
  proof
    assume "(k, e) = (h, nd')"
    moreover have "p \<in> fst ` set xs"
      using obj_at_in_set [OF p(2)] by force
    ultimately show ?thesis
      using p(1) by simp
  next
    assume "(k, e) \<in> set hl"
    with ok r show ?thesis
      by (blast dest: refs_ok_live)
  qed
next
  fix q e assume qe: "(q, e) \<in> set xs"
  show "ctx_refs q (obj_upd h nd' hl) \<le> unat (refcount e)"
  proof (cases "q = p")
    case True
    with qe have "obj_at p xs = Some e"
      using obj_at_distinct [OF dx] by simp
    with p(2) have "e = c"
      by simp
    with True less ctx_refs_upd [OF d at, of p nd'] show ?thesis
      by (auto split: if_splits)
  next
    case False
    with p(1) ctx_refs_upd [OF d at, of q nd'] have "ctx_refs q (obj_upd h nd' hl) \<le> ctx_refs q hl"
      by (auto split: if_splits)
    with refs_ok_count [OF ok qe] show ?thesis
      by simp
  qed
qed

lemma refs_ok_append_handle:
  assumes ok: "refs_ok xs hl" and un: "\<not> registered nd"
  shows "refs_ok xs (hl @ [(h, nd)])"
proof (rule refs_okI)
  fix k e assume "(k, e) \<in> set (hl @ [(h, nd)])" and r: "registered e"
  with un have "(k, e) \<in> set hl"
    by auto
  with ok r show "\<exists>p. netns_ctx e = Some p \<and> p \<in> fst ` set xs"
    by (blast dest: refs_ok_live)
next
  fix p c assume "(p, c) \<in> set xs"
  with refs_ok_count [OF ok this] un show "ctx_refs p (hl @ [(h, nd)]) \<le> unat (refcount c)"
    by (simp add: ctx_refs_def)
qed

lemma refs_ok_put:
  assumes ok: "refs_ok xs hl" and dx: "distinct (map fst xs)" and at: "obj_at p xs = Some c"
    and less: "ctx_refs p hl < unat (refcount c)"
  shows "refs_ok (if refcount c = 1 then llist_del p xs
                  else obj_upd p (c\<lparr>refcount := refcount c - 1\<rparr>) xs) hl"
proof (cases "refcount c = 1")
  case True
  with less have z: "ctx_refs p hl = 0"
    by simp
  have "refs_ok (llist_del p xs) hl"
  proof (rule refs_okI)
    fix k e assume ke: "(k, e) \<in> set hl" and r: "registered e"
    from refs_ok_live [OF ok ke r] obtain q where q: "netns_ctx e = Some q" "q \<in> fst ` set xs"
      by blast
    from z ke r q(1) have "q \<noteq> p"
      unfolding ctx_refs_zero by blast
    with q(2) have "q \<in> fst ` set (llist_del p xs)"
      by (force simp: llist_del_def)
    with q(1) show "\<exists>q. netns_ctx e = Some q \<and> q \<in> fst ` set (llist_del p xs)"
      by blast
  next
    fix q e assume "(q, e) \<in> set (llist_del p xs)"
    then have "(q, e) \<in> set xs"
      by (simp add: llist_del_def)
    then show "ctx_refs q hl \<le> unat (refcount e)"
      by (rule refs_ok_count [OF ok])
  qed
  with True show ?thesis by simp
next
  case False
  let ?c' = "c\<lparr>refcount := refcount c - 1\<rparr>"
  have "unat (refcount c) \<noteq> 0"
    using less by simp
  then have nz: "refcount c \<noteq> 0"
    by (metis unat_0)
  then have "unat (refcount c - 1) = unat (refcount c) - 1"
    by (simp add: unat_minus_one)
  with less have le: "ctx_refs p hl \<le> unat (refcount ?c')"
    by simp
  have "refs_ok (obj_upd p ?c' xs) hl"
  proof (rule refs_okI)
    fix k e assume "(k, e) \<in> set hl" and "registered e"
    with ok show "\<exists>q. netns_ctx e = Some q \<and> q \<in> fst ` set (obj_upd p ?c' xs)"
      unfolding fst_set_obj_upd by (blast dest: refs_ok_live)
  next
    fix q e assume "(q, e) \<in> set (obj_upd p ?c' xs)"
    then have "(q, e) = (p, ?c') \<or> (q, e) \<in> set xs"
      unfolding set_obj_upd_distinct [OF dx at] by blast
    then show "ctx_refs q hl \<le> unat (refcount e)"
      using le refs_ok_count [OF ok] by auto
  qed
  with False show ?thesis by simp
qed

lemma refs_ok_ref:
  assumes ok: "refs_ok xs hl" and dx: "distinct (map fst xs)" and at: "obj_at p xs = Some c"
    and n: "Suc (unat (refcount c)) < 2 ^ 32"
  shows "refs_ok (obj_upd p (c\<lparr>refcount := refcount c + 1\<rparr>) xs) hl
       \<and> ctx_refs p hl < unat (refcount c + 1)"
proof -
  let ?c' = "c\<lparr>refcount := refcount c + 1\<rparr>"
  have "unat (refcount c + 1) = (unat (refcount c) + 1) mod 2 ^ 32"
    by (simp add: unat_word_ariths)
  with n have u: "unat (refcount c + 1) = Suc (unat (refcount c))"
    by simp
  have le: "ctx_refs p hl \<le> unat (refcount c)"
    using refs_ok_count [OF ok obj_at_in_set [OF at]] .
  have "refs_ok (obj_upd p ?c' xs) hl"
  proof (rule refs_okI)
    fix k e assume "(k, e) \<in> set hl" and "registered e"
    with ok show "\<exists>q. netns_ctx e = Some q \<and> q \<in> fst ` set (obj_upd p ?c' xs)"
      unfolding fst_set_obj_upd by (blast dest: refs_ok_live)
  next
    fix q e assume "(q, e) \<in> set (obj_upd p ?c' xs)"
    then have "(q, e) = (p, ?c') \<or> (q, e) \<in> set xs"
      unfolding set_obj_upd_distinct [OF dx at] by blast
    then show "ctx_refs q hl \<le> unat (refcount e)"
      using le u refs_ok_count [OF ok] by auto
  qed
  with le u show ?thesis by simp
qed

lemma refs_ok_new:
  assumes ok: "refs_ok xs hl" and p: "p \<notin> fst ` set xs"
  shows "refs_ok (xs @ [(p, c)]) hl \<and> ctx_refs p hl = 0"
proof -
  have z: "ctx_refs p hl = 0"
    unfolding ctx_refs_zero
  proof (clarify)
    fix k e assume "(k, e) \<in> set hl" "registered e" "netns_ctx e = Some p"
    with refs_ok_live [OF ok this(1,2)] p show False
      by simp
  qed
  have "refs_ok (xs @ [(p, c)]) hl"
  proof (rule refs_okI)
    fix k e assume "(k, e) \<in> set hl" and "registered e"
    from refs_ok_live [OF ok this] show "\<exists>q. netns_ctx e = Some q \<and> q \<in> fst ` set (xs @ [(p, c)])"
      by auto
  next
    fix q e assume "(q, e) \<in> set (xs @ [(p, c)])"
    then have "(q, e) = (p, c) \<or> (q, e) \<in> set xs"
      by auto
    then show "ctx_refs q hl \<le> unat (refcount e)"
      using z refs_ok_count [OF ok] by auto
  qed
  with z show ?thesis by simp
qed

subsection \<open>Every public call preserves the invariant of the handles\<close>

lemma handles_inv_frame:
  assumes "handles_inv w" and "g_netdev_netns_ctx_list w' = g_netdev_netns_ctx_list w"
    and "g_netdev_list w' = g_netdev_list w" and "next_addr w \<le> next_addr w'"
  shows "handles_inv w'"
  using assms by (fastforce simp: handles_inv_iff)

lemma handles_inv_set_netdev_same:
  assumes inv: "handles_inv w" and at: "obj_at h (g_netdev_list w) = Some nd"
    and same: "registered nd' \<longrightarrow> registered nd \<and> netns_ctx nd' = netns_ctx nd"
  shows "handles_inv (set_netdev h nd' w)"
proof -
  have d: "distinct (map fst (g_netdev_list w))"
    using inv by (simp add: handles_inv_iff)
  have lt: "h < next_addr w"
    using inv obj_at_in_set [OF at] by (auto simp: handles_inv_iff)
  have ok: "refs_ok (g_netdev_netns_ctx_list w) (g_netdev_list w)"
    using inv by (simp add: handles_inv_iff)
  have "refs_ok (g_netdev_netns_ctx_list w) (obj_upd h nd' (g_netdev_list w))"
    by (rule refs_ok_upd_same [OF ok d at same])
  moreover have "\<forall>(k, e) \<in> set (obj_upd h nd' (g_netdev_list w)). k < next_addr w"
    using inv lt unfolding set_obj_upd_distinct [OF d at] by (auto simp: handles_inv_iff)
  ultimately show ?thesis
    using d by (simp add: handles_inv_iff set_netdev_def map_fst_obj_upd)
qed

lemma netdev_netns_ctx_get_frame:
  assumes "netdev_netns_ctx_get os ns w = Some (pp, wg)" and "addrs_fresh w"
  shows "g_netdev_list wg = g_netdev_list w \<and> next_addr w \<le> next_addr wg"
proof (cases "netdev_netns_ctx_find_by_netns_name ns (g_netdev_netns_ctx_list w)")
  case None
  from netdev_netns_ctx_get_new [OF None assms(2,1)] show ?thesis
    by auto
next
  case (Some p)
  with assms(1) show ?thesis
    by (auto simp: netdev_netns_ctx_get_def netdev_netns_ctx_ref_Some set_ctx_def)
qed

lemma netdev_netns_ctx_get_refs:
  assumes inv: "world_inv n w"
    and safe: "\<forall>p c. netdev_netns_ctx_find_by_netns_name ns (g_netdev_netns_ctx_list w) = Some p
                 \<longrightarrow> obj_at p (g_netdev_netns_ctx_list w) = Some c \<longrightarrow> refcount c \<noteq> - 1"
    and get: "netdev_netns_ctx_get os ns w = Some (pp, wg)"
  shows "refs_ok (g_netdev_netns_ctx_list wg) (g_netdev_list w)
       \<and> (\<forall>p. pp = Some p \<longrightarrow>
            (\<exists>c. obj_at p (g_netdev_netns_ctx_list wg) = Some c
                \<and> ctx_refs p (g_netdev_list w) < unat (refcount c)))"
proof -
  have wf: "pool_wf n w" and ok: "refs_ok (g_netdev_netns_ctx_list w) (g_netdev_list w)"
    using inv by (simp_all add: world_inv_def handles_inv_iff)
  have dx: "distinct (map fst (g_netdev_netns_ctx_list w))" and fresh: "addrs_fresh w"
    using wf by (simp_all add: pool_wf_def addrs_fresh_def)
  show ?thesis
  proof (cases "netdev_netns_ctx_find_by_netns_name ns (g_netdev_netns_ctx_list w)")
    case (Some p)
    with get obtain c where at: "obj_at p (g_netdev_netns_ctx_list w) = Some c"
      and wg: "wg = set_ctx p (c\<lparr>refcount := refcount c + 1\<rparr>) w" and pp: "pp = Some p"
      by (auto simp: netdev_netns_ctx_get_def netdev_netns_ctx_ref_Some)
    have "refcount c \<noteq> - 1"
      using safe Some at by blast
    then have "Suc (unat (refcount c)) < 2 ^ 32"
      by (rule unat_incr_less)
    from refs_ok_ref [OF ok dx at this] show ?thesis
      using wg pp at by (simp add: set_ctx_def obj_at_obj_upd_same)
  next
    case None
    from netdev_netns_ctx_get_new [OF None fresh get]
    consider "pp = None" "g_netdev_netns_ctx_list wg = g_netdev_netns_ctx_list w"
      | fd where "pp = Some (next_addr w)"
        "g_netdev_netns_ctx_list wg
           = g_netdev_netns_ctx_list w
             @ [(next_addr w, \<lparr>refcount = 1, ctx_netns_name = ns, netns_fd = fd\<rparr>)]"
      by blast
    then show ?thesis
    proof cases
      case 1
      with ok show ?thesis by simp
    next
      case 2
      from refs_ok_new [OF ok addrs_fresh_next [OF fresh]] 2 show ?thesis
        by (simp add: obj_at_append_fresh [OF addrs_fresh_next [OF fresh]])
    qed
  qed
qed

lemma osmo_netdev_register_entered_handles:
  assumes inv: "handles_inv w" and dx: "distinct (map fst (g_netdev_netns_ctx_list w))"
    and at: "obj_at h (g_netdev_list w) = Some nd" and un: "\<not> registered nd"
    and p: "netns_ctx nd = Some p" "obj_at p (g_netdev_netns_ctx_list w) = Some c"
    and less: "ctx_refs p (g_netdev_list w) < unat (refcount c)"
    and reg: "osmo_netdev_register_entered os h nd w = Some (rc, w')"
  shows "handles_inv w'"
proof (cases "if_indextoname os (os_trace w) (ifindex nd)")
  case None
  let ?w1 = "os_log (If_indextoname (ifindex nd)) w"
  obtain r w2 where ex: "NETDEV_NETNS_EXIT os nd ?w1 = (r, w2)"
    by (cases "NETDEV_NETNS_EXIT os nd ?w1")
  have fr: "g_netdev_netns_ctx_list w2 = g_netdev_netns_ctx_list w"
    "g_netdev_list w2 = g_netdev_list w" "next_addr w2 = next_addr w"
    using NETDEV_NETNS_EXIT_frame [OF ex] by (simp_all add: os_log_def)
  then have inv2: "handles_inv w2"
    by (intro handles_inv_frame [OF inv]) simp_all
  show ?thesis
  proof (cases r)
    case (Some rc2)
    with reg None ex inv2 show ?thesis
      by (simp add: osmo_netdev_register_entered_def)
  next
    case None': None
    with reg None ex p(1) have put: "netdev_netns_ctx_put (Some p) w2 = Some w'"
      by (auto simp: osmo_netdev_register_entered_def split: option.splits)
    have at2: "obj_at p (g_netdev_netns_ctx_list w2) = Some c"
      using p(2) fr by simp
    have ok: "refs_ok (g_netdev_netns_ctx_list w) (g_netdev_list w)"
      using inv by (simp add: handles_inv_iff)
    from put netdev_netns_ctx_put_live [OF at2] fr inv refs_ok_put [OF ok dx p(2) less]
    show ?thesis
      by (auto simp: handles_inv_iff set_ctx_def os_log_def split: if_splits)
  qed
next
  case (Some ifnamebuf)
  let ?nd1 = "nd\<lparr>dev_name := osmo_talloc_replace_string (Some ifnamebuf)\<rparr>"
  let ?w2 = "set_netdev h ?nd1 (os_log (If_indextoname (ifindex nd)) w)"
  obtain r w3 where ex: "NETDEV_NETNS_EXIT os ?nd1 ?w2 = (r, w3)"
    by (cases "NETDEV_NETNS_EXIT os ?nd1 ?w2")
  have fr: "g_netdev_netns_ctx_list w3 = g_netdev_netns_ctx_list w"
    "g_netdev_list w3 = obj_upd h ?nd1 (g_netdev_list w)" "next_addr w3 = next_addr w"
    using NETDEV_NETNS_EXIT_frame [OF ex] by (simp_all add: os_log_def set_netdev_def)
  have "handles_inv (set_netdev h ?nd1 w)"
    using un by (intro handles_inv_set_netdev_same [OF inv at]) simp
  then have inv3: "handles_inv w3"
    using fr by (simp add: handles_inv_iff set_netdev_def)
  from reg Some ex have "w' = w3 \<or> w' = set_netdev h (?nd1\<lparr>registered := True\<rparr>) w3"
    by (auto simp: osmo_netdev_register_entered_def Let_def split: option.splits)
  then show ?thesis
  proof
    assume "w' = w3"
    with inv3 show ?thesis by simp
  next
    assume w': "w' = set_netdev h (?nd1\<lparr>registered := True\<rparr>) w3"
    let ?nd2 = "?nd1\<lparr>registered := True\<rparr>"
    have d: "distinct (map fst (g_netdev_list w))"
      using inv by (simp add: handles_inv_iff)
    have lt: "h < next_addr w"
      using inv obj_at_in_set [OF at] by (auto simp: handles_inv_iff)
    have ok: "refs_ok (g_netdev_netns_ctx_list w) (g_netdev_list w)"
      using inv by (simp add: handles_inv_iff)
    have p2: "netns_ctx ?nd2 = Some p"
      using p(1) by simp
    have "refs_ok (g_netdev_netns_ctx_list w) (obj_upd h ?nd2 (g_netdev_list w))"
      by (rule refs_ok_upd_reg [OF ok d at p2 p(2) dx less])
    moreover have "\<forall>(k, e) \<in> set (obj_upd h ?nd2 (g_netdev_list w)). k < next_addr w"
      using inv lt unfolding set_obj_upd_distinct [OF d at] by (auto simp: handles_inv_iff)
    ultimately show ?thesis
      using d fr by (simp add: w' handles_inv_iff set_netdev_def map_fst_obj_upd obj_upd_obj_upd)
  qed
qed


lemma osmo_netdev_register_handles:
  assumes inv: "world_inv n w" and safe: "register_safe h w"
    and reg: "osmo_netdev_register os h w = Some (rc, w')"
  shows "handles_inv w'"
proof -
  have wf: "pool_wf n w" and hinv: "handles_inv w"
    using inv by (simp_all add: world_inv_def)
  have fresh: "addrs_fresh w"
    using wf by (simp add: pool_wf_def)
  from reg obtain nd where nd: "obj_at h (g_netdev_list w) = Some nd"
    by (auto simp: osmo_netdev_register_def split: option.splits)
  show ?thesis
  proof (cases "registered nd")
    case True
    with reg nd hinv show ?thesis
      by (simp add: osmo_netdev_register_def)
  next
    case False
    let ?ns = "case netns_name nd of None \<Rightarrow> [] | Some s \<Rightarrow> s"
    from reg nd False obtain pp wg where get: "netdev_netns_ctx_get os ?ns w = Some (pp, wg)"
      by (auto simp: osmo_netdev_register_def split: option.splits)
    note fr = netdev_netns_ctx_get_frame [OF get fresh]
    note gsafe = register_safe_get [OF safe nd False]
    note refs = netdev_netns_ctx_get_refs [OF inv gsafe get]
    have wfg: "pool_wf (Suc n) wg"
      by (rule netdev_netns_ctx_get_wf [OF wf gsafe get])
    have invg: "handles_inv wg"
      using hinv fr refs by (fastforce simp: handles_inv_iff)
    let ?nd1 = "nd\<lparr>netns_ctx := pp\<rparr>"
    let ?w2 = "set_netdev h ?nd1 wg"
    have ndg: "obj_at h (g_netdev_list wg) = Some nd"
      using nd fr by simp
    have inv2: "handles_inv ?w2"
      using False by (intro handles_inv_set_netdev_same [OF invg ndg]) simp
    have d: "distinct (map fst (g_netdev_list wg))"
      using invg by (simp add: handles_inv_iff)
    have nd2: "obj_at h (g_netdev_list ?w2) = Some ?nd1"
      using ndg by (simp add: set_netdev_def obj_at_obj_upd_same)
    show ?thesis
    proof (cases pp)
      case None
      with reg nd False get have "w' = ?w2"
        by (simp add: osmo_netdev_register_def Let_def)
      with inv2 show ?thesis by simp
    next
      case (Some p)
      with reg nd False get obtain r w3 where en: "NETDEV_NETNS_ENTER os ?nd1 ?w2 = Some (r, w3)"
        and rest: "(case r of Some rc' \<Rightarrow> Some (rc', w3)
                    | None \<Rightarrow> osmo_netdev_register_entered os h ?nd1 w3) = Some (rc, w')"
        by (auto simp: osmo_netdev_register_def Let_def split: option.splits)
      note fr3 = NETDEV_NETNS_ENTER_frame [OF en]
      have inv3: "handles_inv w3"
        using fr3 by (intro handles_inv_frame [OF inv2]) simp_all
      show ?thesis
      proof (cases r)
        case (Some rc')
        with rest inv3 show ?thesis by simp
      next
        case None
        with rest have ent: "osmo_netdev_register_entered os h ?nd1 w3 = Some (rc, w')"
          by simp
        from refs \<open>pp = Some p\<close> obtain c where
          c: "obj_at p (g_netdev_netns_ctx_list wg) = Some c"
            "ctx_refs p (g_netdev_list w) < unat (refcount c)"
          by blast
        have "ctx_refs p (obj_upd h ?nd1 (g_netdev_list wg)) \<le> ctx_refs p (g_netdev_list wg)"
          using ctx_refs_upd [OF d ndg, of p ?nd1] False by (auto split: if_splits)
        with c(2) fr have less: "ctx_refs p (g_netdev_list w3) < unat (refcount c)"
          using fr3 by (simp add: set_netdev_def)
        have dx3: "distinct (map fst (g_netdev_netns_ctx_list w3))"
          using wfg fr3 by (simp add: pool_wf_iff set_netdev_def)
        have at3: "obj_at h (g_netdev_list w3) = Some ?nd1"
          using nd2 fr3 by simp
        have p3: "netns_ctx ?nd1 = Some p" "obj_at p (g_netdev_netns_ctx_list w3) = Some c"
          using \<open>pp = Some p\<close> c(1) fr3 by (simp_all add: set_netdev_def)
        have un3: "\<not> registered ?nd1"
          using False by simp
        show ?thesis
          by (rule osmo_netdev_register_entered_handles [OF inv3 dx3 at3 un3 p3 less ent])
      qed
    qed
  qed
qed

lemma osmo_netdev_unregister_handles:
  assumes inv: "world_inv n w" and un: "osmo_netdev_unregister h w = Some (rc, w')"
  shows "handles_inv w'"
proof -
  have wf: "pool_wf n w" and hinv: "handles_inv w"
    using inv by (simp_all add: world_inv_def)
  from un obtain nd where nd: "obj_at h (g_netdev_list w) = Some nd"
    by (auto simp: osmo_netdev_unregister_def split: option.splits)
  show ?thesis
  proof (cases "registered nd")
    case False
    with un nd hinv show ?thesis
      by (simp add: osmo_netdev_unregister_def)
  next
    case True
    let ?xs = "g_netdev_netns_ctx_list w" and ?hl = "g_netdev_list w"
    have ok: "refs_ok ?xs ?hl" and d: "distinct (map fst ?hl)"
      using hinv by (simp_all add: handles_inv_iff)
    have dx: "distinct (map fst ?xs)"
      using wf by (simp add: pool_wf_iff)
    from refs_ok_live [OF ok obj_at_in_set [OF nd] True] obtain p where
      p: "netns_ctx nd = Some p" "p \<in> fst ` set ?xs"
      by blast
    then obtain c where c: "obj_at p ?xs = Some c"
      by (cases "obj_at p ?xs") (simp_all add: obj_at_None_iff)
    let ?nd' = "nd\<lparr>if_up_known := False, if_mtu_known := False, registered := False\<rparr>"
    let ?hl' = "obj_upd h ?nd' ?hl"
    let ?xs' = "if refcount c = 1 then llist_del p ?xs
                else obj_upd p (c\<lparr>refcount := refcount c - 1\<rparr>) ?xs"
    from un osmo_netdev_unregister_live [OF nd True p(1) c]
    have w': "g_netdev_list w' = ?hl'" "g_netdev_netns_ctx_list w' = ?xs'"
      "next_addr w' = next_addr w"
      by auto
    have ok1: "refs_ok ?xs ?hl'"
      by (rule refs_ok_upd_same [OF ok d nd]) simp
    have "ctx_refs p ?hl' < ctx_refs p ?hl"
      by (rule ctx_refs_upd_less [OF d nd True p(1)]) simp
    with refs_ok_count [OF ok obj_at_in_set [OF c]] have less: "ctx_refs p ?hl' < unat (refcount c)"
      by simp
    have ok2: "refs_ok ?xs' ?hl'"
      by (rule refs_ok_put [OF ok1 dx c less])
    have lt: "h < next_addr w"
      using hinv obj_at_in_set [OF nd] by (auto simp: handles_inv_iff)
    have "\<forall>(k, e) \<in> set ?hl'. k < next_addr w"
      using hinv lt unfolding set_obj_upd_distinct [OF d nd] by (auto simp: handles_inv_iff)
    with ok2 d w' show ?thesis
      by (simp add: handles_inv_iff map_fst_obj_upd)
  qed
qed

lemma osmo_netdev_unregister_inv:
  assumes "world_inv n w" and "osmo_netdev_unregister h w = Some (rc, w')"
  shows "world_inv n w'"
  using assms osmo_netdev_unregister_handles [OF assms] osmo_netdev_unregister_wf
  by (auto simp: world_inv_def)

lemma osmo_netdev_free_inv:
  assumes inv: "world_inv n w" and fr: "osmo_netdev_free hp w = Some w'"
  shows "world_inv n w'"
proof (cases hp)
  case None
  with fr inv show ?thesis by (simp add: osmo_netdev_free_def)
next
  case (Some h)
  with fr obtain w1 where
    w1: "w1 = w \<or> (\<exists>rc. osmo_netdev_unregister h w = Some (rc, w1))"
    and w': "w' = w1\<lparr>g_netdev_list := llist_del h (g_netdev_list w1)\<rparr>"
    by (auto simp: osmo_netdev_free_def split: option.splits if_splits)
  from w1 inv have inv1: "world_inv n w1"
    using osmo_netdev_unregister_inv by blast
  then have wf1: "pool_wf n w1" and h1: "handles_inv w1"
    by (simp_all add: world_inv_def)
  have "pool_wf n w'"
    unfolding w' by (rule pool_wf_same [OF wf1]) simp_all
  moreover have "handles_inv w'"
    using h1 refs_ok_del [of "g_netdev_netns_ctx_list w1" "g_netdev_list w1" h]
    by (auto simp: w' handles_inv_iff llist_del_def distinct_map_filter)
  ultimately show ?thesis
    by (simp add: world_inv_def)
qed

lemma osmo_netdev_alloc_inv:
  assumes inv: "world_inv n w"
  shows "world_inv n (snd (osmo_netdev_alloc os nm w))"
proof -
  have wf: "pool_wf n w" and hinv: "handles_inv w"
    using inv by (simp_all add: world_inv_def)
  have "pool_wf n (snd (osmo_netdev_alloc os nm w))"
    using osmo_netdev_alloc_frame [of os nm w] by (intro pool_wf_same [OF wf]) simp_all
  moreover have "handles_inv (snd (osmo_netdev_alloc os nm w))"
  proof (cases "talloc_zero_ok os (os_trace w)")
    case False
    with hinv show ?thesis
      by (simp add: osmo_netdev_alloc_def os_log_def handles_inv_iff)
  next
    case True
    let ?nd = "\<lparr>netns_ctx = None, name = nm, ifindex = 0, dev_name = None,
                 netns_name = None, priv_data = None, registered = False,
                 ifupdown_ind_cb = None, dev_name_chg_cb = None, mtu_chg_cb = None,
                 if_up = False, if_up_known = False, if_mtu = 0, if_mtu_known = False\<rparr>"
    have "refs_ok (g_netdev_netns_ctx_list w) (g_netdev_list w @ [(next_addr w, ?nd)])"
      using hinv by (intro refs_ok_append_handle) (simp_all add: handles_inv_iff)
    with True hinv show ?thesis
      by (fastforce simp: osmo_netdev_alloc_def os_log_def handles_inv_iff Let_def
          llist_add_tail_def)
  qed
  ultimately show ?thesis
    by (simp add: world_inv_def)
qed


lemma world_inv_set_netdev_same:
  assumes inv: "world_inv n w" and at: "obj_at h (g_netdev_list w) = Some nd"
    and same: "registered nd' \<longrightarrow> registered nd \<and> netns_ctx nd' = netns_ctx nd"
  shows "world_inv n (set_netdev h nd' w)"
proof -
  have wf: "pool_wf n w" and hinv: "handles_inv w"
    using inv by (simp_all add: world_inv_def)
  have "pool_wf n (set_netdev h nd' w)"
    by (rule pool_wf_same [OF wf]) (simp_all add: set_netdev_def)
  with handles_inv_set_netdev_same [OF hinv at same] show ?thesis
    by (simp add: world_inv_def)
qed

lemma setters_inv:
  assumes inv: "world_inv n w"
  shows "osmo_netdev_set_ifindex h idx w = Some (rc, w') \<Longrightarrow> world_inv n w'"
    and "osmo_netdev_set_netns_name h s w = Some (rc, w') \<Longrightarrow> world_inv n w'"
    and "osmo_netdev_set_priv_data h pd w = Some w' \<Longrightarrow> world_inv n w'"
    and "osmo_netdev_set_ifupdown_ind_cb h cb w = Some w' \<Longrightarrow> world_inv n w'"
    and "osmo_netdev_set_dev_name_chg_cb h cb w = Some w' \<Longrightarrow> world_inv n w'"
    and "osmo_netdev_set_mtu_chg_cb h cb w = Some w' \<Longrightarrow> world_inv n w'"
  using inv world_inv_set_netdev_same [OF inv, of h]
  by (auto simp: osmo_netdev_set_ifindex_def osmo_netdev_set_netns_name_def
      osmo_netdev_set_priv_data_def osmo_netdev_set_ifupdown_ind_cb_def
      osmo_netdev_set_dev_name_chg_cb_def osmo_netdev_set_mtu_chg_cb_def
      split: option.splits if_splits)

lemma ops_inv:
  assumes inv: "world_inv n w"
  shows "osmo_netdev_ifupdown os h ifupdown w = Some (rc, w') \<Longrightarrow> world_inv n w'"
    and "osmo_netdev_add_addr os h addr prefixlen w = Some (rc, w') \<Longrightarrow> world_inv n w'"
    and "osmo_netdev_add_route os h dst_addr dst_prefixlen gw_addr w = Some (rc, w')
         \<Longrightarrow> world_inv n w'"
proof -
  have wf: "pool_wf n w" and hinv: "handles_inv w"
    using inv by (simp_all add: world_inv_def)
  have *: "world_inv n w'"
    if "g_netdev_netns_ctx_list w' = g_netdev_netns_ctx_list w" "next_addr w' = next_addr w"
      "g_netdev_list w' = g_netdev_list w" for w'
    using that pool_wf_same [OF wf, of w' n] handles_inv_frame [OF hinv, of w']
    by (simp add: world_inv_def)
  show "osmo_netdev_ifupdown os h ifupdown w = Some (rc, w') \<Longrightarrow> world_inv n w'"
    by (rule *)
      (auto simp: osmo_netdev_ifupdown_def NETDEV_NETNS_ENTER_def NETDEV_NETNS_EXIT_def
        os_log_def Let_def split: option.splits if_splits)
  show "osmo_netdev_add_addr os h addr prefixlen w = Some (rc, w') \<Longrightarrow> world_inv n w'"
    by (rule *)
      (auto simp: osmo_netdev_add_addr_def NETDEV_NETNS_ENTER_def NETDEV_NETNS_EXIT_def
        os_log_def Let_def split: option.splits if_splits)
  show "osmo_netdev_add_route os h dst_addr dst_prefixlen gw_addr w = Some (rc, w')
        \<Longrightarrow> world_inv n w'"
    by (rule *)
      (auto simp: osmo_netdev_add_route_def NETDEV_NETNS_ENTER_def NETDEV_NETNS_EXIT_def
        os_log_def Let_def split: option.splits if_splits)
qed

lemma api_step_inv:
  assumes inv: "world_inv n w" and step: "api_step os c w = Some w'"
    and safe: "call_safe c w"
  shows "world_inv (if is_register c then Suc n else n) w'"
proof (cases c)
  case (Alloc nm)
  with step osmo_netdev_alloc_inv [OF inv, of os nm] show ?thesis by simp
next
  case (Free hp)
  with step osmo_netdev_free_inv [OF inv, of hp w'] show ?thesis by simp
next
  case (Register h)
  with step safe obtain rc where r: "osmo_netdev_register os h w = Some (rc, w')"
    and s': "register_safe h w"
    by auto
  have "pool_wf (Suc n) w'"
    using inv osmo_netdev_register_wf [OF _ s' r] by (simp add: world_inv_def)
  with osmo_netdev_register_handles [OF inv s' r] Register show ?thesis
    by (simp add: world_inv_def)
next
  case (Unregister h)
  with step obtain rc where "osmo_netdev_unregister h w = Some (rc, w')" by auto
  from osmo_netdev_unregister_inv [OF inv this] Unregister show ?thesis by simp
next
  case (Set_ifindex h idx)
  with step obtain rc where "osmo_netdev_set_ifindex h idx w = Some (rc, w')" by auto
  from setters_inv(1) [OF inv this] Set_ifindex show ?thesis by simp
next
  case (Set_netns_name h s)
  with step obtain rc where "osmo_netdev_set_netns_name h s w = Some (rc, w')" by auto
  from setters_inv(2) [OF inv this] Set_netns_name show ?thesis by simp
next
  case (Set_priv_data h pd)
  with step have "osmo_netdev_set_priv_data h pd w = Some w'" by simp
  from setters_inv(3) [OF inv this] Set_priv_data show ?thesis by simp
next
  case (Set_ifupdown_ind_cb h cb)
  with step have "osmo_netdev_set_ifupdown_ind_cb h cb w = Some w'" by simp
  from setters_inv(4) [OF inv this] Set_ifupdown_ind_cb show ?thesis by simp
next
  case (Set_dev_name_chg_cb h cb)
  with step have "osmo_netdev_set_dev_name_chg_cb h cb w = Some w'" by simp
  from setters_inv(5) [OF inv this] Set_dev_name_chg_cb show ?thesis by simp
next
  case (Set_mtu_chg_cb h cb)
  with step have "osmo_netdev_set_mtu_chg_cb h cb w = Some w'" by simp
  from setters_inv(6) [OF inv this] Set_mtu_chg_cb show ?thesis by simp
next
  case (Ifupdown h b)
  with step obtain rc where "osmo_netdev_ifupdown os h b w = Some (rc, w')" by auto
  from ops_inv(1) [OF inv this] Ifupdown show ?thesis by simp
next
  case (Add_addr h a l)
  with step obtain rc where "osmo_netdev_add_addr os h a l w = Some (rc, w')" by auto
  from ops_inv(2) [OF inv this] Add_addr show ?thesis by simp
next
  case (Add_route h a l g)
  with step obtain rc where "osmo_netdev_add_route os h a l g w = Some (rc, w')" by auto
  from ops_inv(3) [OF inv this] Add_route show ?thesis by simp
qed

lemma run_inv:
  assumes "world_inv n w" and "run os cs w = Some w'" and "no_wrap os cs w"
  shows "world_inv (n + register_calls cs) w'"
  using assms
proof (induction cs arbitrary: n w)
  case Nil
  then show ?case by (simp add: register_calls_def)
next
  case (Cons c cs)
  from Cons.prems(2) obtain w1 where step: "api_step os c w = Some w1"
    and rest: "run os cs w1 = Some w'"
    by (auto split: option.splits)
  from Cons.prems(3) step have safe: "call_safe c w" and nw: "no_wrap os cs w1"
    by simp_all
  note inv1 = api_step_inv [OF Cons.prems(1) step safe]
  from Cons.IH [OF inv1 rest nw] show ?case
    by (cases "is_register c") (simp_all add: register_calls_def)
qed

lemma world_inv_world0: "world_inv 0 world0"
  by (simp add: world_inv_def pool_wf_iff handles_inv_iff refs_ok_def world0_def)

text \<open>
  In every state reached from the initial one by a program that wraps no reference count
  (so by every program with fewer than \<open>2 ^ 32\<close> calls of
  \<^verbatim>\<open>osmo_netdev_register\<close>), a registered handle's context pointer refers to a context
  in the pool.
\<close>

lemma registered_handle_live:
  assumes "run os cs world0 = Some w" and "no_wrap os cs world0"
    and "osmo_netdev_is_registered h w = Some True"
  shows "\<exists>p c. netns_ctx_of h w = Some (p, c)"
proof -
  from run_inv [OF world_inv_world0 assms(1,2)] have "handles_inv w"
    by (simp add: world_inv_def)
  then have ok: "refs_ok (g_netdev_netns_ctx_list w) (g_netdev_list w)"
    by (simp add: handles_inv_iff)
  from assms(3) obtain nd where nd: "obj_at h (g_netdev_list w) = Some nd" "registered nd"
    by (auto simp: is_registered_iff)
  from refs_ok_live [OF ok obj_at_in_set [OF nd(1)] nd(2)] obtain p where
    p: "netns_ctx nd = Some p" "p \<in> fst ` set (g_netdev_netns_ctx_list w)"
    by blast
  then obtain c where "obj_at p (g_netdev_netns_ctx_list w) = Some c"
    by (cases "obj_at p (g_netdev_netns_ctx_list w)") (simp_all add: obj_at_None_iff)
  with nd p show ?thesis
    by (simp add: netns_ctx_of_iff)
qed

subsection \<open>Well-formed calls have a defined result\<close>

text \<open>
  In a state that satisfies the invariant, every well-formed call returns: the only calls
  without a defined result are those on a handle that is not live.
\<close>

lemma netdev_netns_ctx_init_defined:
  "obj_at p (g_netdev_netns_ctx_list w) = Some c \<Longrightarrow> \<exists>rc w'. netdev_netns_ctx_init os p w = Some (rc, w')"
  by (auto simp: netdev_netns_ctx_init_def Let_def split: prod.splits option.splits)

lemma netdev_netns_ctx_get_defined:
  assumes fresh: "addrs_fresh w"
  shows "\<exists>pp wg. netdev_netns_ctx_get os ns w = Some (pp, wg)
           \<and> (\<forall>p. pp = Some p \<longrightarrow> obj_at p (g_netdev_netns_ctx_list wg) \<noteq> None)"
proof (cases "netdev_netns_ctx_find_by_netns_name ns (g_netdev_netns_ctx_list w)")
  case (Some p)
  from find_Some_name [OF Some] obtain c where "(p, c) \<in> set (g_netdev_netns_ctx_list w)"
    by blast
  moreover have "distinct (map fst (g_netdev_netns_ctx_list w))"
    using fresh by (simp add: addrs_fresh_def)
  ultimately have "obj_at p (g_netdev_netns_ctx_list w) = Some c"
    by (simp add: obj_at_distinct)
  with Some show ?thesis
    by (simp add: netdev_netns_ctx_get_def netdev_netns_ctx_ref_def set_ctx_def
        obj_at_obj_upd_same)
next
  case None
  show ?thesis
  proof (cases "talloc_zero_ok os (os_trace w)")
    case False
    with None show ?thesis
      by (simp add: netdev_netns_ctx_get_def netdev_netns_ctx_alloc_def)
  next
    case True
    let ?p = "next_addr w"
    let ?c0 = "\<lparr>refcount = 0, ctx_netns_name = ns, netns_fd = - 1\<rparr>"
    let ?w1 = "(os_log Talloc_zero w)\<lparr>g_netdev_netns_ctx_list :=
                  g_netdev_netns_ctx_list w @ [(?p, ?c0)], next_addr := Suc ?p\<rparr>"
    have pf: "?p \<notin> fst ` set (g_netdev_netns_ctx_list w)"
      using fresh by (rule addrs_fresh_next)
    have alloc: "netdev_netns_ctx_alloc os ns w = (Some ?p, ?w1)"
      using True by (simp add: netdev_netns_ctx_alloc_def Let_def os_log_def llist_add_tail_def)
    have pool1: "g_netdev_netns_ctx_list ?w1 = g_netdev_netns_ctx_list w @ [(?p, ?c0)]"
      by (simp add: os_log_def)
    have "obj_at ?p (g_netdev_netns_ctx_list ?w1) = Some ?c0"
      unfolding pool1 by (rule obj_at_append_fresh [OF pf])
    from netdev_netns_ctx_init_defined [OF this] obtain rc w2 where
      init: "netdev_netns_ctx_init os ?p ?w1 = Some (rc, w2)"
      by blast
    from netdev_netns_ctx_init_fresh [OF pf pool1 init] obtain fd where
      "g_netdev_netns_ctx_list w2 = g_netdev_netns_ctx_list w @ [(?p, ?c0\<lparr>netns_fd := fd\<rparr>)]"
      by blast
    then have at2: "obj_at ?p (g_netdev_netns_ctx_list w2) = Some (?c0\<lparr>netns_fd := fd\<rparr>)"
      using pf by (simp add: obj_at_append_fresh)
    show ?thesis
      using None alloc init at2
      by (simp add: netdev_netns_ctx_get_def netdev_netns_ctx_free_def netdev_netns_ctx_ref_def
          set_ctx_def obj_at_obj_upd_same Let_def)
  qed
qed

lemma NETDEV_NETNS_ENTER_defined:
  assumes "netns_ctx nd = Some p" and "obj_at p (g_netdev_netns_ctx_list w) \<noteq> None"
  shows "\<exists>r w'. NETDEV_NETNS_ENTER os nd w = Some (r, w')"
  using assms by (auto simp: NETDEV_NETNS_ENTER_def Let_def split: option.splits)

lemma netdev_netns_ctx_put_defined:
  assumes "obj_at p (g_netdev_netns_ctx_list w) \<noteq> None"
  shows "\<exists>w'. netdev_netns_ctx_put (Some p) w = Some w'"
  using assms netdev_netns_ctx_put_live [of p w] by auto

lemma osmo_netdev_register_entered_defined:
  assumes "netns_ctx nd = Some p" and "obj_at p (g_netdev_netns_ctx_list w) \<noteq> None"
  shows "\<exists>rc w'. osmo_netdev_register_entered os h nd w = Some (rc, w')"
proof (cases "if_indextoname os (os_trace w) (ifindex nd)")
  case None
  let ?w1 = "os_log (If_indextoname (ifindex nd)) w"
  obtain r w2 where ex: "NETDEV_NETNS_EXIT os nd ?w1 = (r, w2)"
    by (cases "NETDEV_NETNS_EXIT os nd ?w1")
  from NETDEV_NETNS_EXIT_frame [OF ex] assms(2)
  have "obj_at p (g_netdev_netns_ctx_list w2) \<noteq> None"
    by (simp add: os_log_def)
  from netdev_netns_ctx_put_defined [OF this] None ex assms(1) show ?thesis
    by (auto simp: osmo_netdev_register_entered_def split: option.splits)
next
  case (Some ifnamebuf)
  then show ?thesis
    by (auto simp: osmo_netdev_register_entered_def Let_def split: prod.splits option.splits)
qed

lemma osmo_netdev_register_defined:
  assumes fresh: "addrs_fresh w" and live: "obj_at h (g_netdev_list w) \<noteq> None"
  shows "\<exists>rc w'. osmo_netdev_register os h w = Some (rc, w')"
proof -
  from live obtain nd where nd: "obj_at h (g_netdev_list w) = Some nd"
    by blast
  show ?thesis
  proof (cases "registered nd")
    case True
    with nd show ?thesis by (simp add: osmo_netdev_register_def)
  next
    case False
    let ?ns = "case netns_name nd of None \<Rightarrow> [] | Some s \<Rightarrow> s"
    from netdev_netns_ctx_get_defined [OF fresh, of os ?ns] obtain pp wg where
      get: "netdev_netns_ctx_get os ?ns w = Some (pp, wg)"
      and lv: "\<forall>p. pp = Some p \<longrightarrow> obj_at p (g_netdev_netns_ctx_list wg) \<noteq> None"
      by blast
    show ?thesis
    proof (cases pp)
      case None
      with nd False get show ?thesis
        by (simp add: osmo_netdev_register_def Let_def)
    next
      case (Some p)
      let ?nd1 = "nd\<lparr>netns_ctx := pp\<rparr>"
      let ?w2 = "set_netdev h ?nd1 wg"
      have p2: "netns_ctx ?nd1 = Some p" "obj_at p (g_netdev_netns_ctx_list ?w2) \<noteq> None"
        using Some lv by (simp_all add: set_netdev_def)
      from NETDEV_NETNS_ENTER_defined [OF p2] obtain r w3 where
        en: "NETDEV_NETNS_ENTER os ?nd1 ?w2 = Some (r, w3)"
        by blast
      have "obj_at p (g_netdev_netns_ctx_list w3) \<noteq> None"
        using NETDEV_NETNS_ENTER_frame [OF en] p2(2) by simp
      from osmo_netdev_register_entered_defined [OF p2(1) this, of os h]
      show ?thesis
        using nd False get Some en
        by (cases r) (auto simp: osmo_netdev_register_def Let_def)
    qed
  qed
qed

lemma api_step_defined:
  assumes inv: "world_inv n w" and ok: "call_ok c w"
  shows "\<exists>w'. api_step os c w = Some w'"
proof -
  have fresh: "addrs_fresh w" and rok: "refs_ok (g_netdev_netns_ctx_list w) (g_netdev_list w)"
    using inv by (simp_all add: world_inv_def pool_wf_def handles_inv_iff)
  have live: "\<exists>p c. netns_ctx nd = Some p \<and> obj_at p (g_netdev_netns_ctx_list w) = Some c"
    if "obj_at h (g_netdev_list w) = Some nd" "registered nd" for h nd
  proof -
    from refs_ok_live [OF rok obj_at_in_set [OF that(1)] that(2)] obtain p where
      p: "netns_ctx nd = Some p" "p \<in> fst ` set (g_netdev_netns_ctx_list w)"
      by blast
    then show ?thesis
      by (cases "obj_at p (g_netdev_netns_ctx_list w)") (simp_all add: obj_at_None_iff)
  qed
  have unreg: "\<exists>rc w'. osmo_netdev_unregister h w = Some (rc, w')"
    if "obj_at h (g_netdev_list w) \<noteq> None" for h
  proof -
    from that obtain nd where nd: "obj_at h (g_netdev_list w) = Some nd" by blast
    show ?thesis
    proof (cases "registered nd")
      case True
      from live [OF nd True] obtain p c where "netns_ctx nd = Some p"
        "obj_at p (g_netdev_netns_ctx_list w) = Some c"
        by blast
      from osmo_netdev_unregister_live [OF nd True this] show ?thesis by simp
    next
      case False
      with nd show ?thesis by (simp add: osmo_netdev_unregister_def)
    qed
  qed
  have enter: "\<exists>r w'. NETDEV_NETNS_ENTER os nd w = Some (r, w')"
    if "obj_at h (g_netdev_list w) = Some nd" "registered nd" for h nd
    using live [OF that] NETDEV_NETNS_ENTER_defined [of nd _ w os] by auto
  show ?thesis
  proof (cases c)
    case (Alloc nm)
    then show ?thesis by simp
  next
    case (Free hp)
    show ?thesis
    proof (cases hp)
      case None
      with Free show ?thesis by (simp add: osmo_netdev_free_def)
    next
      case (Some h)
      with Free ok unreg [of h] show ?thesis
        by (auto simp: osmo_netdev_free_def osmo_netdev_is_registered_def)
    qed
  next
    case (Register h)
    with ok osmo_netdev_register_defined [OF fresh, of h os] show ?thesis by auto
  next
    case (Unregister h)
    with ok unreg [of h] show ?thesis by auto
  next
    case (Set_ifindex h idx)
    with ok show ?thesis by (auto simp: osmo_netdev_set_ifindex_def)
  next
    case (Set_netns_name h s)
    with ok show ?thesis by (auto simp: osmo_netdev_set_netns_name_def)
  next
    case (Set_priv_data h pd)
    with ok show ?thesis by (auto simp: osmo_netdev_set_priv_data_def)
  next
    case (Set_ifupdown_ind_cb h cb)
    with ok show ?thesis by (auto simp: osmo_netdev_set_ifupdown_ind_cb_def)
  next
    case (Set_dev_name_chg_cb h cb)
    with ok show ?thesis by (auto simp: osmo_netdev_set_dev_name_chg_cb_def)
  next
    case (Set_mtu_chg_cb h cb)
    with ok show ?thesis by (auto simp: osmo_netdev_set_mtu_chg_cb_def)
  next
    case (Ifupdown h b)
    with ok obtain nd where nd: "obj_at h (g_netdev_list w) = Some nd" by auto
    with Ifupdown enter [OF nd] show ?thesis
      by (cases "registered nd")
        (auto simp: osmo_netdev_ifupdown_def split: prod.splits option.splits)
  next
    case (Add_addr h a l)
    with ok obtain nd where nd: "obj_at h (g_netdev_list w) = Some nd" by auto
    with Add_addr enter [OF nd] show ?thesis
      by (cases "registered nd")
        (auto simp: osmo_netdev_add_addr_def split: prod.splits option.splits)
  next
    case (Add_route h a l g)
    with ok obtain nd where nd: "obj_at h (g_netdev_list w) = Some nd" by auto
    with Add_route enter [OF nd] show ?thesis
      by (cases "registered nd")
        (auto simp: osmo_netdev_add_route_def split: prod.splits option.splits)
  qed
qed

subsection \<open>Distinct names in every reachable state\<close>

lemma names_wf_iff:
  "names_wf w \<longleftrightarrow>
     distinct (map fst (g_netdev_netns_ctx_list w))
     \<and> distinct (map (ctx_netns_name \<circ> snd) (g_netdev_netns_ctx_list w))
     \<and> (\<forall>(p, c) \<in> set (g_netdev_netns_ctx_list w). p < next_addr w)
     \<and> (\<forall>(p, c) \<in> set (g_netdev_netns_ctx_list w).
           if ctx_netns_name c = [] then netns_fd c = - 1 else 0 \<le> netns_fd c)"
  by (auto simp: names_wf_def names_distinct_def addrs_fresh_def fds_ok_def list_all_iff)

lemma names_wf_same:
  assumes "names_wf w" and "g_netdev_netns_ctx_list w' = g_netdev_netns_ctx_list w"
    and "next_addr w \<le> next_addr w'"
  shows "names_wf w'"
  using assms by (fastforce simp: names_wf_iff)

lemma names_wf_del:
  assumes "names_wf w"
    and "g_netdev_netns_ctx_list w' = llist_del p (g_netdev_netns_ctx_list w)"
    and "next_addr w' = next_addr w"
  shows "names_wf w'"
  using assms by (auto simp: names_wf_iff llist_del_def distinct_map_filter)

lemma names_wf_upd:
  assumes wf: "names_wf w"
    and at: "obj_at p (g_netdev_netns_ctx_list w) = Some c"
    and pool: "g_netdev_netns_ctx_list w' = obj_upd p c' (g_netdev_netns_ctx_list w)"
    and nx: "next_addr w' = next_addr w"
    and nm: "ctx_netns_name c' = ctx_netns_name c"
    and fd: "netns_fd c' = netns_fd c"
  shows "names_wf w'"
proof -
  have d: "distinct (map fst (g_netdev_netns_ctx_list w))"
    using wf by (simp add: names_wf_iff)
  have p: "p < next_addr w"
    using wf obj_at_in_set [OF at] by (auto simp: names_wf_iff)
  have c: "if ctx_netns_name c' = [] then netns_fd c' = - 1 else 0 \<le> netns_fd c'"
    using wf obj_at_in_set [OF at] nm fd by (auto simp: names_wf_iff)
  have lt: "\<forall>(q, d) \<in> set (obj_upd p c' (g_netdev_netns_ctx_list w)). q < next_addr w"
    using wf p set_obj_upd [of p c' "g_netdev_netns_ctx_list w"]
    by (fastforce simp: names_wf_iff)
  have "\<forall>(q, d) \<in> set (obj_upd p c' (g_netdev_netns_ctx_list w)).
          if ctx_netns_name d = [] then netns_fd d = - 1 else 0 \<le> netns_fd d"
    using wf c set_obj_upd [of p c' "g_netdev_netns_ctx_list w"]
    by (fastforce simp: names_wf_iff)
  with lt show ?thesis
    using wf d pool nx map_name_obj_upd [OF d at nm]
    by (simp add: names_wf_iff map_fst_obj_upd)
qed

lemma netdev_netns_ctx_put_names:
  assumes wf: "names_wf w" and put: "netdev_netns_ctx_put pp w = Some w'"
  shows "names_wf w'"
proof -
  from put obtain p c where pp: "pp = Some p"
    and at: "obj_at p (g_netdev_netns_ctx_list w) = Some c"
    by (auto simp: netdev_netns_ctx_put_def split: option.splits)
  note live = netdev_netns_ctx_put_live [OF at]
  show ?thesis
  proof (cases "refcount c = 1")
    case True
    with live put pp show ?thesis
      by (intro names_wf_del [OF wf, of w' p]) (auto simp: os_log_def split: if_splits)
  next
    case False
    with live put pp have w': "w' = set_ctx p (c\<lparr>refcount := refcount c - 1\<rparr>) w"
      by simp
    show ?thesis
      by (rule names_wf_upd [OF wf at, of w' "c\<lparr>refcount := refcount c - 1\<rparr>"])
        (simp_all add: w' set_ctx_def)
  qed
qed

lemma netdev_netns_ctx_get_names:
  assumes wf: "names_wf w" and get: "netdev_netns_ctx_get os ns w = Some (pp, w')"
  shows "names_wf w'"
proof (cases "netdev_netns_ctx_find_by_netns_name ns (g_netdev_netns_ctx_list w)")
  case (Some p)
  with get obtain c where at: "obj_at p (g_netdev_netns_ctx_list w) = Some c"
    and w': "w' = set_ctx p (c\<lparr>refcount := refcount c + 1\<rparr>) w"
    by (auto simp: netdev_netns_ctx_get_def netdev_netns_ctx_ref_Some)
  show ?thesis
    by (rule names_wf_upd [OF wf at, of w' "c\<lparr>refcount := refcount c + 1\<rparr>"])
      (simp_all add: w' set_ctx_def)
next
  case None
  have fresh: "addrs_fresh w"
    using wf by (simp add: names_wf_def)
  from netdev_netns_ctx_get_new [OF None fresh get]
  consider "g_netdev_netns_ctx_list w' = g_netdev_netns_ctx_list w" "next_addr w \<le> next_addr w'"
    | fd where "g_netdev_netns_ctx_list w'
                = g_netdev_netns_ctx_list w
                  @ [(next_addr w, \<lparr>refcount = 1, ctx_netns_name = ns, netns_fd = fd\<rparr>)]"
        "next_addr w' = Suc (next_addr w)"
        "if ns = [] then fd = - 1 else 0 \<le> fd"
    by auto
  then show ?thesis
  proof cases
    case 1
    then show ?thesis
      by (intro names_wf_same [OF wf]) simp_all
  next
    case 2
    have "ns \<notin> set (map (ctx_netns_name \<circ> snd) (g_netdev_netns_ctx_list w))"
      using None by (simp add: find_None_iff)
    with wf 2 addrs_fresh_next [OF fresh] show ?thesis
      by (fastforce simp: names_wf_iff)
  qed
qed

lemma osmo_netdev_register_entered_names:
  assumes wf: "names_wf w"
    and reg: "osmo_netdev_register_entered os h nd w = Some (rc, w')"
  shows "names_wf w'"
proof (cases "if_indextoname os (os_trace w) (ifindex nd)")
  case None
  let ?w1 = "os_log (If_indextoname (ifindex nd)) w"
  obtain r w2 where ex: "NETDEV_NETNS_EXIT os nd ?w1 = (r, w2)"
    by (cases "NETDEV_NETNS_EXIT os nd ?w1")
  have wf2: "names_wf w2"
    using NETDEV_NETNS_EXIT_frame [OF ex]
    by (intro names_wf_same [OF wf]) (simp_all add: os_log_def)
  show ?thesis
  proof (cases r)
    case (Some rc2)
    with reg None ex wf2 show ?thesis
      by (simp add: osmo_netdev_register_entered_def)
  next
    case None': None
    with reg None ex obtain w3 where "netdev_netns_ctx_put (netns_ctx nd) w2 = Some w3" "w' = w3"
      by (auto simp: osmo_netdev_register_entered_def split: option.splits)
    with wf2 show ?thesis
      using netdev_netns_ctx_put_names by blast
  qed
next
  case (Some ifnamebuf)
  let ?nd1 = "nd\<lparr>dev_name := osmo_talloc_replace_string (Some ifnamebuf)\<rparr>"
  let ?w2 = "set_netdev h ?nd1 (os_log (If_indextoname (ifindex nd)) w)"
  obtain r w3 where ex: "NETDEV_NETNS_EXIT os ?nd1 ?w2 = (r, w3)"
    by (cases "NETDEV_NETNS_EXIT os ?nd1 ?w2")
  have wf3: "names_wf w3"
    using NETDEV_NETNS_EXIT_frame [OF ex]
    by (intro names_wf_same [OF wf]) (simp_all add: os_log_def set_netdev_def)
  from reg Some ex have "w' = w3 \<or> w' = set_netdev h (?nd1\<lparr>registered := True\<rparr>) w3"
    by (auto simp: osmo_netdev_register_entered_def Let_def split: option.splits)
  then show ?thesis
    using wf3 names_wf_same [OF wf3, of "set_netdev h (?nd1\<lparr>registered := True\<rparr>) w3"]
    by (auto simp: set_netdev_def)
qed

lemma osmo_netdev_register_names:
  assumes wf: "names_wf w" and reg: "osmo_netdev_register os h w = Some (rc, w')"
  shows "names_wf w'"
proof -
  from reg obtain nd where nd: "obj_at h (g_netdev_list w) = Some nd"
    by (auto simp: osmo_netdev_register_def split: option.splits)
  show ?thesis
  proof (cases "registered nd")
    case True
    with reg nd wf show ?thesis
      by (simp add: osmo_netdev_register_def)
  next
    case False
    let ?ns = "case netns_name nd of None \<Rightarrow> [] | Some s \<Rightarrow> s"
    from reg nd False obtain pp wg where get: "netdev_netns_ctx_get os ?ns w = Some (pp, wg)"
      by (auto simp: osmo_netdev_register_def split: option.splits)
    have wfg: "names_wf wg"
      by (rule netdev_netns_ctx_get_names [OF wf get])
    let ?nd1 = "nd\<lparr>netns_ctx := pp\<rparr>"
    let ?w2 = "set_netdev h ?nd1 wg"
    have wf2: "names_wf ?w2"
      by (rule names_wf_same [OF wfg]) (simp_all add: set_netdev_def)
    show ?thesis
    proof (cases pp)
      case None
      with reg nd False get have "w' = ?w2"
        by (simp add: osmo_netdev_register_def Let_def)
      with wf2 show ?thesis by simp
    next
      case (Some p)
      with reg nd False get obtain r w3 where en: "NETDEV_NETNS_ENTER os ?nd1 ?w2 = Some (r, w3)"
        and rest: "(case r of Some rc' \<Rightarrow> Some (rc', w3)
                    | None \<Rightarrow> osmo_netdev_register_entered os h ?nd1 w3) = Some (rc, w')"
        by (auto simp: osmo_netdev_register_def Let_def split: option.splits)
      have wf3: "names_wf w3"
        using NETDEV_NETNS_ENTER_frame [OF en]
        by (intro names_wf_same [OF wf2]) simp_all
      from rest show ?thesis
        using wf3 osmo_netdev_register_entered_names [OF wf3]
        by (auto split: option.splits)
    qed
  qed
qed

lemma osmo_netdev_unregister_names:
  assumes wf: "names_wf w" and un: "osmo_netdev_unregister h w = Some (rc, w')"
  shows "names_wf w'"
proof -
  from un obtain nd where nd: "obj_at h (g_netdev_list w) = Some nd"
    by (auto simp: osmo_netdev_unregister_def split: option.splits)
  show ?thesis
  proof (cases "registered nd")
    case False
    with un nd wf show ?thesis
      by (simp add: osmo_netdev_unregister_def)
  next
    case True
    let ?nd1 = "nd\<lparr>if_up_known := False, if_mtu_known := False\<rparr>"
    from un nd True obtain w2 where
      put: "netdev_netns_ctx_put (netns_ctx ?nd1) (set_netdev h ?nd1 w) = Some w2"
      and w': "w' = set_netdev h (?nd1\<lparr>registered := False\<rparr>) w2"
      by (auto simp: osmo_netdev_unregister_def Let_def split: option.splits)
    have "names_wf (set_netdev h ?nd1 w)"
      by (rule names_wf_same [OF wf]) (simp_all add: set_netdev_def)
    then have wf2: "names_wf w2"
      using put by (rule netdev_netns_ctx_put_names)
    show ?thesis
      unfolding w' by (rule names_wf_same [OF wf2]) (simp_all add: set_netdev_def)
  qed
qed

lemma osmo_netdev_free_names:
  assumes wf: "names_wf w" and fr: "osmo_netdev_free hp w = Some w'"
  shows "names_wf w'"
proof (cases hp)
  case None
  with fr wf show ?thesis by (simp add: osmo_netdev_free_def)
next
  case (Some h)
  with fr obtain w1 where
    w1: "w1 = w \<or> (\<exists>rc. osmo_netdev_unregister h w = Some (rc, w1))"
    and w': "w' = w1\<lparr>g_netdev_list := llist_del h (g_netdev_list w1)\<rparr>"
    by (auto simp: osmo_netdev_free_def split: option.splits if_splits)
  from w1 wf have wf1: "names_wf w1"
    using osmo_netdev_unregister_names by blast
  show ?thesis
    unfolding w' by (rule names_wf_same [OF wf1]) simp_all
qed

lemma api_step_names:
  assumes wf: "names_wf w" and step: "api_step os c w = Some w'"
  shows "names_wf w'"
proof (cases c)
  case (Alloc nm)
  with step have "w' = snd (osmo_netdev_alloc os nm w)" by simp
  with osmo_netdev_alloc_frame [of os nm w] show ?thesis
    by (simp add: names_wf_same [OF wf])
next
  case (Free hp)
  with step osmo_netdev_free_names [OF wf, of hp w'] show ?thesis by simp
next
  case (Register h)
  with step obtain rc where "osmo_netdev_register os h w = Some (rc, w')" by auto
  from osmo_netdev_register_names [OF wf this] show ?thesis .
next
  case (Unregister h)
  with step obtain rc where "osmo_netdev_unregister h w = Some (rc, w')" by auto
  from osmo_netdev_unregister_names [OF wf this] show ?thesis .
next
  case (Set_ifindex h idx)
  with step obtain rc where "osmo_netdev_set_ifindex h idx w = Some (rc, w')" by auto
  from setters_frame(1) [OF this] show ?thesis
    by (simp add: names_wf_same [OF wf])
next
  case (Set_netns_name h s)
  with step obtain rc where "osmo_netdev_set_netns_name h s w = Some (rc, w')" by auto
  from setters_frame(2) [OF this] show ?thesis
    by (simp add: names_wf_same [OF wf])
next
  case (Set_priv_data h pd)
  with step have "osmo_netdev_set_priv_data h pd w = Some w'" by simp
  from setters_frame(3) [OF this] show ?thesis
    by (simp add: names_wf_same [OF wf])
next
  case (Set_ifupdown_ind_cb h cb)
  with step have "osmo_netdev_set_ifupdown_ind_cb h cb w = Some w'" by simp
  from setters_frame(4) [OF this] show ?thesis
    by (simp add: names_wf_same [OF wf])
next
  case (Set_dev_name_chg_cb h cb)
  with step have "osmo_netdev_set_dev_name_chg_cb h cb w = Some w'" by simp
  from setters_frame(5) [OF this] show ?thesis
    by (simp add: names_wf_same [OF wf])
next
  case (Set_mtu_chg_cb h cb)
  with step have "osmo_netdev_set_mtu_chg_cb h cb w = Some w'" by simp
  from setters_frame(6) [OF this] show ?thesis
    by (simp add: names_wf_same [OF wf])
next
  case (Ifupdown h b)
  with step obtain rc where "osmo_netdev_ifupdown os h b w = Some (rc, w')" by auto
  from ops_frame(1) [OF this] show ?thesis
    by (simp add: names_wf_same [OF wf])
next
  case (Add_addr h a l)
  with step obtain rc where "osmo_netdev_add_addr os h a l w = Some (rc, w')" by auto
  from ops_frame(2) [OF this] show ?thesis
    by (simp add: names_wf_same [OF wf])
next
  case (Add_route h a l g)
  with step obtain rc where "osmo_netdev_add_route os h a l g w = Some (rc, w')" by auto
  from ops_frame(3) [OF this] show ?thesis
    by (simp add: names_wf_same [OF wf])
qed

lemma run_names:
  assumes "names_wf w" and "run os cs w = Some w'"
  shows "names_wf w'"
  using assms
proof (induction cs arbitrary: w)
  case Nil
  then show ?case by simp
next
  case (Cons c cs)
  from Cons.prems(2) obtain w1 where step: "api_step os c w = Some w1"
    and rest: "run os cs w1 = Some w'"
    by (auto split: option.splits)
  from Cons.IH [OF api_step_names [OF Cons.prems(1) step] rest] show ?case .
qed

lemma names_wf_world0: "names_wf world0"
  by (simp add: names_wf_iff world0_def)

subsection \<open>Many handles in one namespace\<close>

lemma many_first: "run os_ok blue_prog world0 = Some (w_many 0)"
  by code_simp

lemma many_handles_fresh:
  "n + 3 \<notin> fst ` set ((1, nd_blue_reg) # map (\<lambda>i. (i + 3, nd_blue_reg)) [0..<n])"
  by auto

lemma register_found_ok:
  assumes nd: "obj_at h (g_netdev_list w) = Some nd" "\<not> registered nd"
      "netns_name nd = Some ''blue''" "ifindex nd = 1"
    and pool: "g_netdev_netns_ctx_list w = [(2, c)]" "ctx_netns_name c = ''blue''"
      "netns_fd c = 3"
  shows "osmo_netdev_register os_ok h w =
     Some (0, w\<lparr>g_netdev_netns_ctx_list := [(2, c\<lparr>refcount := refcount c + 1\<rparr>)],
                g_netdev_list :=
                  obj_upd h (nd\<lparr>netns_ctx := Some 2, dev_name := Some ''lo'',
                                 registered := True\<rparr>) (g_netdev_list w),
                os_trace := Osmo_netns_switch_exit # If_indextoname 1
                            # Osmo_netns_switch_enter 3 # os_trace w\<rparr>)"
proof -
  have p1: "obj_at 2 [(2 :: nat, v)] = Some v" for v :: netdev_netns_ctx
    by (simp add: obj_at_def)
  have p2: "obj_upd 2 v [(2 :: nat, u)] = [(2, v)]" for u v :: netdev_netns_ctx
    by (simp add: obj_upd_def)
  have p3: "netdev_netns_ctx_find_by_netns_name ''blue'' [(2 :: nat, c)] = Some 2"
    using pool(2) by simp
  show ?thesis
    using assms
    by (simp add: osmo_netdev_register_def netdev_netns_ctx_get_def netdev_netns_ctx_ref_def
        NETDEV_NETNS_ENTER_def NETDEV_NETNS_EXIT_def osmo_netdev_register_entered_def
        set_netdev_def set_ctx_def os_log_def osmo_talloc_replace_string_def Let_def
        os_ok_def p1 p2 p3 obj_at_obj_upd_same obj_upd_obj_upd
        del: netdev_netns_ctx_find_by_netns_name.simps)
qed

lemma many_step:
  "run os_ok [Alloc (Some ''tun''), Set_netns_name (n + 3) (Some ''blue''),
              Set_ifindex (n + 3) 1, Register (n + 3)] (w_many n)
   = Some (w_many (Suc n))"
proof -
  define hl where "hl = (1, nd_blue_reg) # map (\<lambda>i. (i + 3, nd_blue_reg)) [0..<n]"
  let ?hl = hl
  let ?h = "n + 3"
  let ?nd0 = "\<lparr>netns_ctx = None, name = Some ''tun'', ifindex = 0, dev_name = None,
               netns_name = None, priv_data = None, registered = False,
               ifupdown_ind_cb = None, dev_name_chg_cb = None, mtu_chg_cb = None,
               if_up = False, if_up_known = False, if_mtu = 0, if_mtu_known = False\<rparr>"
  note fr = many_handles_fresh [of n, folded hl_def]
  have at: "obj_at ?h (?hl @ [(?h, v)]) = Some v" for v :: osmo_netdev
    by (rule obj_at_append_fresh [OF fr])
  have upd: "obj_upd ?h v (?hl @ [(?h, u)]) = ?hl @ [(?h, v)]" for u v :: osmo_netdev
    by (rule obj_upd_append_fresh [OF fr])
  define w1 where "w1 = (w_many n)\<lparr>g_netdev_list := ?hl @ [(?h, ?nd0)], next_addr := Suc ?h,
                        os_trace := Talloc_zero # os_trace (w_many n)\<rparr>"
  define w2 where "w2 = w1\<lparr>g_netdev_list := ?hl @ [(?h, ?nd0\<lparr>netns_name := Some ''blue''\<rparr>)]\<rparr>"
  define w3 where "w3 = w2\<lparr>g_netdev_list :=
                          ?hl @ [(?h, ?nd0\<lparr>netns_name := Some ''blue'', ifindex := 1\<rparr>)]\<rparr>"
  have hl: "g_netdev_list (w_many n) = ?hl" and nx: "next_addr (w_many n) = ?h"
    and pl: "g_netdev_netns_ctx_list (w_many n)
             = [(2, \<lparr>refcount = of_nat (Suc n), ctx_netns_name = ''blue'', netns_fd = 3\<rparr>)]"
    by (simp_all add: w_many_def hl_def)
  have s1: "api_step os_ok (Alloc (Some ''tun'')) (w_many n) = Some w1"
    unfolding w1_def
    by (simp add: osmo_netdev_alloc_def os_ok_def os_log_def llist_add_tail_def Let_def hl nx)
  have s2: "api_step os_ok (Set_netns_name ?h (Some ''blue'')) w1 = Some w2"
    unfolding w2_def
    by (simp add: osmo_netdev_set_netns_name_def set_netdev_def osmo_talloc_replace_string_def
        w1_def at upd)
  have s3: "api_step os_ok (Set_ifindex ?h 1) w2 = Some w3"
    unfolding w3_def
    by (simp add: osmo_netdev_set_ifindex_def set_netdev_def w2_def w1_def at upd)
  have nd3: "obj_at ?h (g_netdev_list w3)
             = Some (?nd0\<lparr>netns_name := Some ''blue'', ifindex := 1\<rparr>)"
    by (simp add: w3_def at)
  have pl3: "g_netdev_netns_ctx_list w3
             = [(2, \<lparr>refcount = of_nat (Suc n), ctx_netns_name = ''blue'', netns_fd = 3\<rparr>)]"
    by (simp add: w3_def w2_def w1_def pl)
  have fin: "w3\<lparr>g_netdev_netns_ctx_list :=
                  [(2, \<lparr>refcount = of_nat (Suc n), ctx_netns_name = ''blue'', netns_fd = 3\<rparr>
                       \<lparr>refcount := of_nat (Suc n) + 1\<rparr>)],
                g_netdev_list :=
                  obj_upd ?h (?nd0\<lparr>netns_name := Some ''blue'', ifindex := 1,
                                    netns_ctx := Some 2, dev_name := Some ''lo'',
                                    registered := True\<rparr>) (g_netdev_list w3),
                os_trace := Osmo_netns_switch_exit # If_indextoname 1
                            # Osmo_netns_switch_enter 3 # os_trace w3\<rparr>
             = w_many (Suc n)"
  proof -
    have e: "w_many (Suc n)
             = \<lparr>g_netdev_netns_ctx_list =
                  [(2, \<lparr>refcount = of_nat (Suc n) + 1, ctx_netns_name = ''blue'', netns_fd = 3\<rparr>)],
                g_netdev_list = hl @ [(n + 3, nd_blue_reg)],
                next_addr = Suc (n + 3),
                os_trace = Osmo_netns_switch_exit # If_indextoname 1
                           # Osmo_netns_switch_enter 3 # Talloc_zero # os_trace (w_many n)\<rparr>"
      by (simp add: w_many_def hl_def)
    show ?thesis
      unfolding e by (simp add: w3_def w2_def w1_def upd nd_blue_reg_def pl)
  qed
  have s4: "api_step os_ok (Register ?h) w3 = Some (w_many (Suc n))"
    using register_found_ok [OF nd3 _ _ _ pl3] fin by simp
  show ?thesis
    by (simp only: run.simps s1 s2 s3 s4 option.case)
qed

lemma many_run: "run os_ok (many_prog n) world0 = Some (w_many n)"
proof (induction n)
  case 0
  show ?case by (simp add: many_first)
next
  case (Suc n)
  then show ?case
    by (simp only: many_prog.simps run_append many_step option.case)
qed

subsection \<open>The invariant of the pool\<close>

text \<open>
  C4, as the spec states it, fails. The reference count is an \<^verbatim>\<open>unsigned int\<close> that
  \<^verbatim>\<open>netdev_netns_ctx_get\<close> increments without a bound: when \<open>2 ^ 32\<close> handles are
  registered in one namespace, every registration succeeding, their context is in the pool
  with reference count 0.
\<close>

theorem pool_invariant_counterexample:
  "run os_ok (many_prog (2 ^ 32 - 1)) world0 = Some (w_many (2 ^ 32 - 1))
   \<and> g_netdev_netns_ctx_list (w_many (2 ^ 32 - 1))
     = [(2, \<lparr>refcount = 0, ctx_netns_name = ''blue'', netns_fd = 3\<rparr>)]
   \<and> \<not> pool_inv (w_many (2 ^ 32 - 1))"
proof -
  have pl: "g_netdev_netns_ctx_list (w_many n)
            = [(2, \<lparr>refcount = of_nat (Suc n), ctx_netns_name = ''blue'', netns_fd = 3\<rparr>)]"
    for n
    by (simp add: w_many_def)
  have z: "(of_nat (Suc (2 ^ 32 - 1)) :: 32 word) = 0"
    by simp
  have p: "g_netdev_netns_ctx_list (w_many (2 ^ 32 - 1))
           = [(2, \<lparr>refcount = 0, ctx_netns_name = ''blue'', netns_fd = 3\<rparr>)]"
    unfolding pl z ..
  have n: "\<not> pool_inv (w_many (2 ^ 32 - 1))"
    unfolding pool_inv_def counts_positive_def p by simp
  from many_run [of "2 ^ 32 - 1"] p n show ?thesis
    by (intro conjI)
qed

text \<open>
  C4, amended. In every state reached from the initial one by a program of public calls,
  no two contexts in the pool have the same namespace name; and if none of the calls has
  wrapped a reference count around, every context in the pool has a reference count
  greater than zero. (The pool holds exactly the contexts that exist.)
\<close>

theorem pool_invariant:
  assumes "run os cs world0 = Some w"
  shows "names_distinct w \<and> (no_wrap os cs world0 \<longrightarrow> counts_positive w)"
proof (intro conjI impI)
  from run_names [OF names_wf_world0 assms] show "names_distinct w"
    by (simp add: names_wf_def)
next
  assume "no_wrap os cs world0"
  from run_wf [OF pool_wf_world0 assms this] show "counts_positive w"
    by (simp add: pool_wf_def pool_inv_def)
qed

theorem pool_invariant_witness:
  "run os_ok blue_prog world0 = Some w_blue_reg
   \<and> no_wrap os_ok blue_prog world0
   \<and> names_distinct w_blue_reg \<and> counts_positive w_blue_reg"
proof -
  have h1: "run os_ok blue_prog world0 = Some w_blue_reg"
    by code_simp
  have h2: "no_wrap os_ok blue_prog world0"
    by code_simp
  show ?thesis
    using h1 h2 pool_invariant [OF h1]
    by simp
qed

subsection \<open>Two handles in one namespace\<close>














end
